theory Spec2Isabelle
  imports Complex_Main "HOL-Library.Extended_Nat" "HOL-Library.Sublist"
    "HOL-Library.Code_Target_Numeral"
begin

section \<open>Edit distance (src/utils/levenshtein.ts)\<close>

text \<open>
  A JavaScript string is a sequence of code units and \<open>length\<close> counts them, so a string is
  a list here; \<open>levenshtein\<close> only compares code units for equality and is modelled for
  lists over any type.

  The table \<open>dp\<close> is an array of \<open>m + 1\<close> rows, each a \<open>Uint16Array\<close> of \<open>n + 1\<close> cells.
  A cell holds a natural number below \<open>65536\<close>; a store into a cell keeps the value
  modulo \<open>65536\<close> (\<open>u16\<close>), a read gives the number back. \<open>Math.min\<close> and \<open>+ 1\<close> work on
  the numbers read, before the store. A counting loop is a fold over the list of its indices,
  in their order, with the table as the state.
\<close>

definition u16 :: "nat \<Rightarrow> nat" where
  "u16 v = v mod 65536"

type_synonym table = "nat list list"

definition newTable :: "nat \<Rightarrow> nat \<Rightarrow> table" where
  \<comment> \<open>\<open>Array.from({ length: m + 1 }, () => new Uint16Array(n + 1))\<close>\<close>
  "newTable m n = replicate (m + 1) (replicate (n + 1) 0)"

definition cell :: "table \<Rightarrow> nat \<Rightarrow> nat \<Rightarrow> nat" where
  \<comment> \<open>the read \<open>dp[i][j]\<close>; the source only reads inside the table\<close>
  "cell dp i j = dp ! i ! j"

definition setCell :: "table \<Rightarrow> nat \<Rightarrow> nat \<Rightarrow> nat \<Rightarrow> table" where
  \<comment> \<open>the store \<open>dp[i][j] = v\<close>; the source only stores inside the table\<close>
  "setCell dp i j v = dp[i := (dp ! i)[j := u16 v]]"

definition initColumn :: "nat \<Rightarrow> table \<Rightarrow> table" where
  \<comment> \<open>\<open>for (let i = 0; i <= m; i++) dp[i][0] = i\<close>\<close>
  "initColumn m dp = fold (\<lambda>i dp. setCell dp i 0 i) [0..<Suc m] dp"

definition initRow :: "nat \<Rightarrow> table \<Rightarrow> table" where
  \<comment> \<open>\<open>for (let j = 0; j <= n; j++) dp[0][j] = j\<close>\<close>
  "initRow n dp = fold (\<lambda>j dp. setCell dp 0 j j) [0..<Suc n] dp"

definition fillCell :: "'a list \<Rightarrow> 'a list \<Rightarrow> nat \<Rightarrow> nat \<Rightarrow> table \<Rightarrow> table" where
  \<comment> \<open>the body of the inner loop, for \<open>1 \<le> i\<close> and \<open>1 \<le> j\<close>\<close>
  "fillCell a b i j dp =
     setCell dp i j
       (if a ! (i - 1) = b ! (j - 1) then cell dp (i - 1) (j - 1)
        else min (cell dp (i - 1) (j - 1) + 1)
                 (min (cell dp i (j - 1) + 1) (cell dp (i - 1) j + 1)))"

definition fillRow :: "'a list \<Rightarrow> 'a list \<Rightarrow> nat \<Rightarrow> table \<Rightarrow> table" where
  \<comment> \<open>\<open>for (let j = 1; j <= n; j++) ...\<close>\<close>
  "fillRow a b i dp = fold (fillCell a b i) [1..<Suc (length b)] dp"

definition fillTable :: "'a list \<Rightarrow> 'a list \<Rightarrow> table \<Rightarrow> table" where
  \<comment> \<open>\<open>for (let i = 1; i <= m; i++) ...\<close>\<close>
  "fillTable a b dp = fold (fillRow a b) [1..<Suc (length a)] dp"

definition levenshtein_dp :: "'a list \<Rightarrow> 'a list \<Rightarrow> table" where
  \<comment> \<open>the table after the last iteration\<close>
  "levenshtein_dp a b =
     fillTable a b (initRow (length b) (initColumn (length a) (newTable (length a) (length b))))"

definition levenshtein :: "'a list \<Rightarrow> 'a list \<Rightarrow> nat" where
  "levenshtein a b =
     (let m = length a; n = length b in
      if m = 0 then n
      else if n = 0 then m
      else cell (levenshtein_dp a b) m n)"

section \<open>Fuzzy search (src/utils/fuzzySearch.ts)\<close>

subsection \<open>Strings and values\<close>

text \<open>
  A string is a list of code units; the model takes the code units \<open>0\<close> to \<open>255\<close>
  (\<^typ>\<open>char\<close>, read as Latin-1). On these \<open>toLowerCase\<close> maps \<open>A\<close> to \<open>Z\<close> and the
  accented capitals \<open>0xC0\<close> to \<open>0xDE\<close> (without the multiplication sign \<open>0xD7\<close>) to the code
  unit 32 above and leaves every other code unit as it is. The white space of \<open>trim\<close> and of
  the pattern in \<open>split\<close> is tab, line feed, vertical tab, form feed, carriage return, space
  and the no-break space.
\<close>

definition lowerChar :: "char \<Rightarrow> char" where
  "lowerChar c =
     (let n = (of_char c :: nat) in
      if (65 \<le> n \<and> n \<le> 90) \<or> (192 \<le> n \<and> n \<le> 222 \<and> n \<noteq> 215)
      then char_of (n + 32) else c)"

definition toLowerCase :: "string \<Rightarrow> string" where
  "toLowerCase s = map lowerChar s"

definition keptChar :: "char \<Rightarrow> bool" where
  \<comment> \<open>the class \<open>[a-z0-9 ]\<close>\<close>
  "keptChar c =
     (let n = (of_char c :: nat) in
      (97 \<le> n \<and> n \<le> 122) \<or> (48 \<le> n \<and> n \<le> 57) \<or> n = 32)"

definition isWhiteSpace :: "char \<Rightarrow> bool" where
  "isWhiteSpace c \<longleftrightarrow> of_char c \<in> {9, 10, 11, 12, 13, 32, 160 :: nat}"

definition trim :: "string \<Rightarrow> string" where
  "trim s = rev (dropWhile isWhiteSpace (rev (dropWhile isWhiteSpace s)))"

definition normalize :: "string \<Rightarrow> string" where
  \<comment> \<open>\<open>str.toLowerCase().replace(/[^a-z0-9 ]+/g, "").trim()\<close>\<close>
  "normalize str = trim (filter keptChar (toLowerCase str))"

text \<open>
  \<open>s.split\<close> at white space: the pieces of \<open>s\<close> between the maximal runs of white space. A run at
  the start or at the end of \<open>s\<close> leaves an empty piece there, and the empty string has the
  one piece \<open>""\<close>.
\<close>

function splitWhiteSpace :: "string \<Rightarrow> string list" where
  "splitWhiteSpace [] = [[]]"
| "splitWhiteSpace (c # cs) =
     (if isWhiteSpace c then [] # splitWhiteSpace (dropWhile isWhiteSpace cs)
      else (case splitWhiteSpace cs of
              [] \<Rightarrow> [[c]]
            | w # ws \<Rightarrow> (c # w) # ws))"
  by pat_completeness auto
termination
  by (relation "measure length") (auto simp: length_dropWhile_le less_Suc_eq_le)

fun joinSpace :: "string list \<Rightarrow> string" where
  \<comment> \<open>\<open>words.join(" ")\<close>\<close>
  "joinSpace [] = []"
| "joinSpace [w] = w"
| "joinSpace (w # ws) = w @ '' '' @ joinSpace ws"

definition slice :: "'a list \<Rightarrow> nat \<Rightarrow> nat \<Rightarrow> 'a list" where
  \<comment> \<open>\<open>xs.slice(i, j)\<close> for \<open>0 \<le> i \<le> j\<close>\<close>
  "slice xs i j = take (j - i) (drop i xs)"

text \<open>
  The loop \<open>for (let i = 0; i <= words.length - n; i++)\<close> runs for the \<open>i\<close> with
  \<open>i + n \<le> words.length\<close>, and not at all when \<open>n\<close> is larger than the number of words: these
  are the \<open>i\<close> below \<open>Suc (length words) - n\<close>, the subtraction on \<^typ>\<open>nat\<close> stopping at \<open>0\<close>
  (\<open>n\<close> is at least \<open>1\<close>).
\<close>

definition generateNGrams :: "string list \<Rightarrow> nat \<Rightarrow> string list" where
  "generateNGrams words maxN =
     concat (map (\<lambda>n. map (\<lambda>i. joinSpace (slice words i (i + n)))
                         [0..<Suc (length words) - n])
                 [1..<Suc maxN])"

text \<open>
  A field of a record holds any value; \<open>String(v)\<close> turns it into text. The model has
  \<open>undefined\<close>, \<open>null\<close>, the booleans, the integers and the strings, and with \<open>JOther\<close> every
  other value (a number that is not an integer, \<open>NaN\<close>, \<open>Infinity\<close>, an array, an object),
  which the code knows only by the text that \<open>String\<close> makes of it: \<open>JOther\<close> carries that
  text. A record is a finite map from field names to values, and reading a field the record
  does not have gives \<open>undefined\<close>.
\<close>

datatype jsvalue =
  JUndefined | JNull | JBool bool | JNumber int | JString string | JOther string

type_synonym 'k item = "'k \<rightharpoonup> jsvalue"

definition getField :: "'k item \<Rightarrow> 'k \<Rightarrow> jsvalue" where
  \<comment> \<open>\<open>item[key]\<close>\<close>
  "getField item key = (case item key of None \<Rightarrow> JUndefined | Some v \<Rightarrow> v)"

fun digitsOf :: "nat \<Rightarrow> string" where
  "digitsOf n =
     (if n < 10 then [''0123456789'' ! n]
      else digitsOf (n div 10) @ [''0123456789'' ! (n mod 10)])"

text \<open>
  The text of an integer, \<open>String(n)\<close>. An integer of the model stands for the number (a
  double) nearest to it; below \<open>2\<^sup>5\<^sup>3\<close> in size that is the integer itself and the text is
  its sign and decimal digits. From there on a double has 53 significant bits
  (\<open>nearestDouble\<close>, ties to the even one, \<open>Infinity\<close> from \<open>2\<^sup>1\<^sup>0\<^sup>2\<^sup>4\<close>), and the text has
  the fewest significant digits that still denote this double, the nearest such number when
  there are several, the one with the even last digit when two are equally near
  (\<open>shortestDigits\<close>: the digits \<open>s\<close> and the number \<open>n\<close> of digits before the decimal
  point). Up to 21 digits the text is \<open>s\<close> filled with zeros, beyond that it is the
  exponent form, as in \<open>1e+21\<close> and \<open>1.2345678901234568e+29\<close>.
\<close>

fun bitLength :: "nat \<Rightarrow> nat" where
  "bitLength n = (if n = 0 then 0 else Suc (bitLength (n div 2)))"

definition nearestDouble :: "nat \<Rightarrow> nat option" where
  "nearestDouble v =
     (let b = bitLength v in
      if b \<le> 53 then Some v
      else
        let e = b - 53;
            q = v div 2 ^ e;
            r = v mod 2 ^ e;
            h = 2 ^ (e - 1);
            m = (if h < r \<or> (r = h \<and> odd q) then q + 1 else q) * 2 ^ e
        in if 2 ^ 1024 \<le> m then None else Some m)"

definition digitCandidates :: "nat \<Rightarrow> nat \<Rightarrow> (nat \<times> nat) list" where
  \<comment> \<open>the pairs \<open>(s, n)\<close> with \<open>k\<close> digits \<open>s\<close> for which \<open>s * 10 ^ (n - k)\<close> denotes \<open>x\<close>\<close>
  "digitCandidates x k =
     [(s, n).
        n \<leftarrow> [length (digitsOf x), length (digitsOf x) + 1], k \<le> n,
        s \<leftarrow> [x div 10 ^ (n - k), x div 10 ^ (n - k) + 1],
        10 ^ (k - 1) \<le> s \<and> s < 10 ^ k \<and> nearestDouble (s * 10 ^ (n - k)) = Some x]"

definition candidateError :: "nat \<Rightarrow> nat \<times> nat \<Rightarrow> int" where
  "candidateError x c =
     \<bar>int (fst c * 10 ^ (snd c - length (digitsOf (fst c)))) - int x\<bar>"

definition closestCandidate :: "nat \<Rightarrow> (nat \<times> nat) list \<Rightarrow> nat \<times> nat" where
  "closestCandidate x cs =
     fold (\<lambda>c cur.
             if candidateError x c < candidateError x cur \<or>
                (candidateError x c = candidateError x cur \<and> even (fst c) \<and> odd (fst cur))
             then c else cur)
          (tl cs) (hd cs)"

definition shortestDigits :: "nat \<Rightarrow> nat \<times> nat" where
  "shortestDigits x =
     (case List.find (\<lambda>k. digitCandidates x k \<noteq> []) [1..<18] of
        Some k \<Rightarrow> closestCandidate x (digitCandidates x k)
      | None \<Rightarrow> (x, length (digitsOf x)))"

definition formatDigits :: "nat \<times> nat \<Rightarrow> string" where
  "formatDigits c =
     (let ds = digitsOf (fst c); k = length ds; n = snd c in
      if n \<le> 21 then ds @ replicate (n - k) CHR ''0''
      else if k = 1 then ds @ ''e+'' @ digitsOf (n - 1)
      else [hd ds] @ ''.'' @ tl ds @ ''e+'' @ digitsOf (n - 1))"

definition numberToString :: "int \<Rightarrow> string" where
  "numberToString i =
     (let v = nat \<bar>i\<bar>;
          body = (if v < 9007199254740992 then digitsOf v
                  else case nearestDouble v of
                         None \<Rightarrow> ''Infinity''
                       | Some x \<Rightarrow> formatDigits (shortestDigits x))
      in if i < 0 then ''-'' @ body else body)"

fun toString :: "jsvalue \<Rightarrow> string" where
  \<comment> \<open>\<open>String(v)\<close>\<close>
  "toString JUndefined = ''undefined''"
| "toString JNull = ''null''"
| "toString (JBool b) = (if b then ''true'' else ''false'')"
| "toString (JNumber i) = numberToString i"
| "toString (JString s) = s"
| "toString (JOther text) = text"

subsection \<open>Scoring one record\<close>

text \<open>
  A score is a number or \<open>Infinity\<close>: an \<^typ>\<open>enat\<close>. \<open>scoreFields\<close> is the loop over
  \<open>keys\<close> in the callback of \<open>items.map\<close>, with \<open>bestScore\<close> as its accumulator; the two
  \<open>return\<close> statements inside the loop end it with the score \<open>0\<close> or \<open>1\<close>.
\<close>

definition phraseScores :: "string \<Rightarrow> string list \<Rightarrow> enat \<Rightarrow> enat" where
  \<comment> \<open>\<open>for (const phrase of nGrams) bestScore = Math.min(bestScore, levenshtein(phrase, normalizedQuery))\<close>\<close>
  "phraseScores normalizedQuery nGrams bestScore =
     fold (\<lambda>phrase best. min best (enat (levenshtein phrase normalizedQuery))) nGrams bestScore"

fun scoreFields :: "string \<Rightarrow> string list \<Rightarrow> 'k item \<Rightarrow> 'k list \<Rightarrow> enat \<Rightarrow> enat" where
  "scoreFields normalizedQuery queryWords item [] bestScore = bestScore"
| "scoreFields normalizedQuery queryWords item (key # keys) bestScore =
     (let fieldValue = normalize (toString (getField item key)) in
      if fieldValue = [] then scoreFields normalizedQuery queryWords item keys bestScore
      else if fieldValue = normalizedQuery then 0
      else if prefix normalizedQuery fieldValue then 1
      else
        let best1 = (if sublist normalizedQuery fieldValue then min bestScore 2 else bestScore);
            fieldWords = splitWhiteSpace fieldValue;
            nGrams = generateNGrams fieldWords (length queryWords + 1);
            best2 = phraseScores normalizedQuery nGrams best1;
            fullDist = levenshtein fieldValue normalizedQuery;
            best3 = min best2 (enat fullDist)
        in scoreFields normalizedQuery queryWords item keys best3)"

definition scoreItem :: "string \<Rightarrow> string list \<Rightarrow> 'k list \<Rightarrow> 'k item \<Rightarrow> enat" where
  \<comment> \<open>the \<open>score\<close> of the pair that the callback of \<open>items.map\<close> returns\<close>
  "scoreItem normalizedQuery queryWords keys item =
     scoreFields normalizedQuery queryWords item keys \<infinity>"

subsection \<open>The search\<close>

text \<open>
  The threshold and the limit are integers, as in the public interface; each may be left out
  (\<open>None\<close>), the limit then being \<open>5\<close>. \<open>Math.floor(normalizedQuery.length * 0.45)\<close> is taken
  in exact arithmetic.

  The module keeps one \<open>Map\<close> from cache keys to results for all calls. The state has this
  map and, as instrumentation, the number of records scored so far.
\<close>

record 'k state =
  cache :: "string \<rightharpoonup> 'k item list"
  scoreCalls :: nat

definition effectiveThreshold :: "int option \<Rightarrow> string \<Rightarrow> int" where
  "effectiveThreshold threshold normalizedQuery =
     (case threshold of
        Some t \<Rightarrow> t
      | None \<Rightarrow> max 3 \<lfloor>real (length normalizedQuery) * 0.45\<rfloor>)"

definition cacheKey :: "string \<Rightarrow> int \<Rightarrow> int \<Rightarrow> string" where
  "cacheKey normalizedQuery threshold limit =
     normalizedQuery @ ''-'' @ numberToString threshold @ ''-'' @ numberToString limit"

definition withinThreshold :: "int \<Rightarrow> enat \<Rightarrow> bool" where
  \<comment> \<open>\<open>score <= effectiveThreshold\<close>\<close>
  "withinThreshold threshold score = (case score of enat n \<Rightarrow> int n \<le> threshold | \<infinity> \<Rightarrow> False)"

definition sliceLimit :: "int \<Rightarrow> 'a list \<Rightarrow> 'a list" where
  \<comment> \<open>\<open>xs.slice(0, limit)\<close>: a negative limit counts from the end\<close>
  "sliceLimit limit xs =
     (if limit < 0 then take (nat (int (length xs) + limit)) xs else take (nat limit) xs)"

definition rankItems :: "string \<Rightarrow> 'k list \<Rightarrow> int \<Rightarrow> int \<Rightarrow> 'k item list \<Rightarrow> 'k item list" where
  \<comment> \<open>\<open>items.map(...).filter(...).sort(...).map(...).slice(0, limit)\<close>; \<open>sort\<close> is stable\<close>
  "rankItems normalizedQuery keys threshold limit items =
     (let queryWords = splitWhiteSpace normalizedQuery;
          scored = map (\<lambda>item. (item, scoreItem normalizedQuery queryWords keys item)) items;
          passed = filter (\<lambda>result. withinThreshold threshold (snd result)) scored;
          ordered = sort_key snd passed
      in sliceLimit limit (map fst ordered))"

definition fuzzySearch ::
  "'k state \<Rightarrow> 'k item list \<Rightarrow> string \<Rightarrow> 'k list \<Rightarrow> int option \<Rightarrow> int option
    \<Rightarrow> 'k item list \<times> 'k state" where
  "fuzzySearch st items query keys threshold limitArg =
     (let normalizedQuery = normalize query;
          limit = (case limitArg of None \<Rightarrow> 5 | Some l \<Rightarrow> l)
      in if length normalizedQuery < 3 then ([], st)
         else
           let thr = effectiveThreshold threshold normalizedQuery;
               key = cacheKey normalizedQuery thr limit
           in case cache st key of
                Some cached \<Rightarrow> (cached, st)
              | None \<Rightarrow>
                  let results = rankItems normalizedQuery keys thr limit items
                  in (results,
                      st\<lparr>cache := (cache st)(key \<mapsto> results),
                         scoreCalls := scoreCalls st + length items\<rparr>))"

text \<open>\<open>const cache = new Map()\<close>: the state when the module is loaded.\<close>

definition initialState :: "'k state" where
  "initialState = \<lparr>cache = Map.empty, scoreCalls = 0\<rparr>"

section \<open>Notions for the proofs\<close>

subsection \<open>Edit distance\<close>

text \<open>
  One edit of a string inserts, deletes or replaces one element at any position; \<open>edit1 ^^ n\<close>
  is a sequence of \<open>n\<close> edits.
\<close>

inductive edit1 :: "'a list \<Rightarrow> 'a list \<Rightarrow> bool" where
  insertion: "edit1 (xs @ ys) (xs @ c # ys)"
| deletion: "edit1 (xs @ c # ys) (xs @ ys)"
| substitution: "edit1 (xs @ c # ys) (xs @ d # ys)"

text \<open>The distance by recursion on the two strings, read from their first elements.\<close>

fun editDist :: "'a list \<Rightarrow> 'a list \<Rightarrow> nat" where
  "editDist [] ys = length ys"
| "editDist (x # xs) [] = Suc (length xs)"
| "editDist (x # xs) (y # ys) =
     (if x = y then editDist xs ys
      else 1 + min (editDist xs ys) (min (editDist (x # xs) ys) (editDist xs (y # ys))))"

text \<open>
  The value of the cell \<open>dp[i][j]\<close> by recursion on \<open>i\<close> and \<open>j\<close>, every store reduced
  modulo \<open>65536\<close> as in the table.
\<close>

fun wrapDist :: "'a list \<Rightarrow> 'a list \<Rightarrow> nat \<Rightarrow> nat \<Rightarrow> nat" where
  "wrapDist a b 0 j = u16 j"
| "wrapDist a b (Suc i) 0 = u16 (Suc i)"
| "wrapDist a b (Suc i) (Suc j) =
     u16 (if a ! i = b ! j then wrapDist a b i j
          else min (wrapDist a b i j + 1)
                   (min (wrapDist a b (Suc i) j + 1) (wrapDist a b i (Suc j) + 1)))"

text \<open>
  The shape of the table, and the state of the table while row \<open>k\<close> is filled up to
  column \<open>l\<close>.
\<close>

definition wf_table :: "nat \<Rightarrow> nat \<Rightarrow> table \<Rightarrow> bool" where
  "wf_table m n dp \<longleftrightarrow> length dp = Suc m \<and> (\<forall>r \<in> set dp. length r = Suc n)"

definition filled :: "'a list \<Rightarrow> 'a list \<Rightarrow> nat \<Rightarrow> nat \<Rightarrow> table \<Rightarrow> bool" where
  "filled a b k l dp \<longleftrightarrow>
     wf_table (length a) (length b) dp \<and>
     (\<forall>i \<le> length a. cell dp i 0 = u16 i) \<and>
     (\<forall>i j. j \<le> length b \<and> (i < k \<or> (i = k \<and> j \<le> l)) \<longrightarrow> cell dp i j = wrapDist a b i j)"

subsection \<open>Scores\<close>

text \<open>
  The text of a field as the scoring loop sees it, and one round of the loop for a field
  that ends neither of the two early returns.
\<close>

definition fieldText :: "'k item \<Rightarrow> 'k \<Rightarrow> string" where
  "fieldText item key = normalize (toString (getField item key))"

definition fieldStep :: "string \<Rightarrow> string list \<Rightarrow> string \<Rightarrow> enat \<Rightarrow> enat" where
  "fieldStep nq qw fv best =
     min (phraseScores nq (generateNGrams (splitWhiteSpace fv) (length qw + 1))
            (if sublist nq fv then min best 2 else best))
         (enat (levenshtein fv nq))"




text \<open>
  The score that a search for \<open>query\<close> over \<open>keys\<close> computes for a record, and the condition
  under which a call answers from the cache.
\<close>

definition queryScore :: "string \<Rightarrow> 'k list \<Rightarrow> 'k item \<Rightarrow> enat" where
  "queryScore query keys item =
     scoreItem (normalize query) (splitWhiteSpace (normalize query)) keys item"

definition cacheHit :: "'k state \<Rightarrow> string \<Rightarrow> int option \<Rightarrow> int option \<Rightarrow> bool" where
  "cacheHit st query threshold limitArg \<longleftrightarrow>
     3 \<le> length (normalize query) \<and>
     cache st (cacheKey (normalize query) (effectiveThreshold threshold (normalize query))
                 (case limitArg of None \<Rightarrow> 5 | Some l \<Rightarrow> l)) \<noteq> None"

subsection \<open>Records for the examples\<close>

abbreviation recExact :: "string item" where
  "recExact \<equiv> [''title'' \<mapsto> JString ''ABC!'']"

abbreviation recNear :: "string item" where
  "recNear \<equiv> [''title'' \<mapsto> JString ''abd'']"

abbreviation recNearB :: "string item" where
  "recNearB \<equiv> [''title'' \<mapsto> JString ''abx'']"



abbreviation recNumber :: "string item" where
  "recNumber \<equiv> [''id'' \<mapsto> JNumber 123]"

abbreviation recEmptyNote :: "string item" where
  "recEmptyNote \<equiv> [''title'' \<mapsto> JString ''abc'', ''note'' \<mapsto> JString ''?!'']"

abbreviation recFour :: "string item" where
  "recFour \<equiv> [''title'' \<mapsto> JString ''undefwxyz'']"

abbreviation recFive :: "string item" where
  "recFive \<equiv> [''title'' \<mapsto> JString ''undevwxyz'']"

section \<open>The table holds the recurrence\<close>

lemma wf_newTable: "wf_table m n (newTable m n)"
  by (simp add: wf_table_def newTable_def)

lemma wf_setCell: "wf_table m n dp \<Longrightarrow> wf_table m n (setCell dp i j v)"
proof (cases "i < length dp")
  case True
  assume "wf_table m n dp"
  with True show ?thesis
    unfolding wf_table_def setCell_def
    by (auto dest!: set_update_subset_insert [THEN subsetD])
next
  case False
  assume "wf_table m n dp"
  with False show ?thesis by (simp add: setCell_def list_update_beyond)
qed

lemma cell_setCell:
  assumes "wf_table m n dp" "i \<le> m" "j \<le> n"
  shows "cell (setCell dp i j v) i' j' = (if i' = i \<and> j' = j then u16 v else cell dp i' j')"
proof -
  from assms have i: "i < length dp" and j: "j < length (dp ! i)"
    by (auto simp: wf_table_def)
  show ?thesis
  proof (cases "i' = i")
    case True
    with i j show ?thesis by (simp add: cell_def setCell_def nth_list_update)
  next
    case False
    then show ?thesis by (simp add: cell_def setCell_def)
  qed
qed

lemma wrapDist_col0: "wrapDist a b i 0 = u16 i"
  by (cases i) simp_all

lemma initColumn_inv:
  assumes "wf_table m n dp" "k \<le> m"
  shows "wf_table m n (fold (\<lambda>i dp. setCell dp i 0 i) [0..<Suc k] dp) \<and>
         (\<forall>i \<le> k. cell (fold (\<lambda>i dp. setCell dp i 0 i) [0..<Suc k] dp) i 0 = u16 i)"
  using assms(2)
proof (induction k)
  case 0
  with assms(1) show ?case by (simp add: wf_setCell cell_setCell)
next
  case (Suc k)
  then have IH: "wf_table m n (fold (\<lambda>i dp. setCell dp i 0 i) [0..<Suc k] dp)"
    "\<forall>i \<le> k. cell (fold (\<lambda>i dp. setCell dp i 0 i) [0..<Suc k] dp) i 0 = u16 i"
    by simp_all
  have "fold (\<lambda>i dp. setCell dp i 0 i) [0..<Suc (Suc k)] dp =
        setCell (fold (\<lambda>i dp. setCell dp i 0 i) [0..<Suc k] dp) (Suc k) 0 (Suc k)"
    by (simp del: upt_Suc add: upt_Suc_append)
  with IH Suc.prems show ?case
    by (auto simp: wf_setCell cell_setCell le_Suc_eq)
qed

lemma initRow_inv:
  assumes "wf_table m n dp" "l \<le> n" "\<forall>i \<le> m. cell dp i 0 = u16 i"
  shows "wf_table m n (fold (\<lambda>j dp. setCell dp 0 j j) [0..<Suc l] dp) \<and>
         (\<forall>i \<le> m. cell (fold (\<lambda>j dp. setCell dp 0 j j) [0..<Suc l] dp) i 0 = u16 i) \<and>
         (\<forall>j \<le> l. cell (fold (\<lambda>j dp. setCell dp 0 j j) [0..<Suc l] dp) 0 j = u16 j)"
  using assms(2)
proof (induction l)
  case 0
  with assms(1,3) show ?case by (simp add: wf_setCell cell_setCell)
next
  case (Suc l)
  let ?dp = "fold (\<lambda>j dp. setCell dp 0 j j) [0..<Suc l] dp"
  from Suc have IH: "wf_table m n ?dp" "\<forall>i \<le> m. cell ?dp i 0 = u16 i" "\<forall>j \<le> l. cell ?dp 0 j = u16 j"
    by simp_all
  have "fold (\<lambda>j dp. setCell dp 0 j j) [0..<Suc (Suc l)] dp = setCell ?dp 0 (Suc l) (Suc l)"
    by (simp del: upt_Suc add: upt_Suc_append)
  with IH Suc.prems show ?case
    by (auto simp: wf_setCell cell_setCell le_Suc_eq)
qed

lemma filled_init:
  "filled a b 0 (length b)
     (initRow (length b) (initColumn (length a) (newTable (length a) (length b))))"
proof -
  let ?m = "length a" and ?n = "length b"
  have c: "wf_table ?m ?n (initColumn ?m (newTable ?m ?n))"
      "\<forall>i \<le> ?m. cell (initColumn ?m (newTable ?m ?n)) i 0 = u16 i"
    using initColumn_inv [OF wf_newTable [of ?m ?n], of ?m] by (simp_all add: initColumn_def)
  from initRow_inv [OF c(1) le_refl c(2)] show ?thesis
    by (simp add: filled_def initRow_def)
qed

lemma filled_fillCell:
  assumes "filled a b k l dp" "1 \<le> k" "k \<le> length a" "l < length b"
  shows "filled a b k (Suc l) (fillCell a b k (Suc l) dp)"
proof -
  from assms(1) have wf: "wf_table (length a) (length b) dp"
    and col: "\<forall>i \<le> length a. cell dp i 0 = u16 i"
    and old: "\<And>i j. j \<le> length b \<Longrightarrow> i < k \<or> (i = k \<and> j \<le> l) \<Longrightarrow> cell dp i j = wrapDist a b i j"
    by (auto simp: filled_def)
  obtain k' where k': "k = Suc k'" using assms(2) by (cases k) auto
  have d: "cell dp k' l = wrapDist a b k' l" using old [of l k'] assms(4) k' by simp
  have le: "cell dp k l = wrapDist a b k l" using old [of l k] assms(4) by simp
  have up: "cell dp k' (Suc l) = wrapDist a b k' (Suc l)" using old [of "Suc l" k'] assms(4) k' by simp
  have new: "cell (fillCell a b k (Suc l) dp) i j =
      (if i = k \<and> j = Suc l then wrapDist a b k (Suc l) else cell dp i j)" for i j
    unfolding fillCell_def using assms(3,4)
    by (simp add: cell_setCell [OF wf] k' d le [unfolded k'] up)
  show ?thesis
    unfolding filled_def
  proof (intro conjI allI impI)
    show "wf_table (length a) (length b) (fillCell a b k (Suc l) dp)"
      unfolding fillCell_def by (rule wf_setCell [OF wf])
  next
    fix i assume "i \<le> length a"
    with col show "cell (fillCell a b k (Suc l) dp) i 0 = u16 i" by (simp add: new)
  next
    fix i j assume "j \<le> length b \<and> (i < k \<or> i = k \<and> j \<le> Suc l)"
    then show "cell (fillCell a b k (Suc l) dp) i j = wrapDist a b i j"
      using old [of j i] by (auto simp: new le_Suc_eq)
  qed
qed

lemma filled_next_row:
  assumes "filled a b k (length b) dp" "k < length a"
  shows "filled a b (Suc k) 0 dp"
  unfolding filled_def
proof (intro conjI allI impI)
  from assms show "wf_table (length a) (length b) dp" by (simp add: filled_def)
  from assms show "\<And>i. i \<le> length a \<Longrightarrow> cell dp i 0 = u16 i" by (simp add: filled_def)
  fix i j assume h: "j \<le> length b \<and> (i < Suc k \<or> i = Suc k \<and> j \<le> 0)"
  show "cell dp i j = wrapDist a b i j"
  proof (cases "i = Suc k")
    case True
    with h have "j = 0" by auto
    moreover have "cell dp i 0 = u16 i" using assms True by (simp add: filled_def)
    ultimately show ?thesis by (simp add: wrapDist_col0)
  next
    case False
    with h have "j \<le> length b" "i < k \<or> (i = k \<and> j \<le> length b)" by auto
    with assms(1) show ?thesis unfolding filled_def by blast
  qed
qed

lemma filled_fillRow_prefix:
  assumes "filled a b k 0 dp" "1 \<le> k" "k \<le> length a" "l \<le> length b"
  shows "filled a b k l (fold (fillCell a b k) [1..<Suc l] dp)"
  using assms(4)
proof (induction l)
  case 0
  with assms(1) show ?case by simp
next
  case (Suc l)
  then have "filled a b k l (fold (fillCell a b k) [1..<Suc l] dp)" by simp
  from filled_fillCell [OF this assms(2,3)] Suc.prems
  show ?case by (simp del: upt_Suc add: upt_Suc_append)
qed

lemma filled_fillRow:
  assumes "filled a b k (length b) dp" "k < length a"
  shows "filled a b (Suc k) (length b) (fillRow a b (Suc k) dp)"
  unfolding fillRow_def
  using filled_fillRow_prefix [OF filled_next_row [OF assms], of "length b"] assms(2)
  by simp

lemma filled_fillTable_prefix:
  assumes "filled a b 0 (length b) dp" "k \<le> length a"
  shows "filled a b k (length b) (fold (fillRow a b) [1..<Suc k] dp)"
  using assms(2)
proof (induction k)
  case 0
  with assms(1) show ?case by simp
next
  case (Suc k)
  then have "filled a b k (length b) (fold (fillRow a b) [1..<Suc k] dp)" by simp
  from filled_fillRow [OF this] Suc.prems
  show ?case by (simp del: upt_Suc add: upt_Suc_append)
qed

lemma filled_levenshtein_dp: "filled a b (length a) (length b) (levenshtein_dp a b)"
  unfolding levenshtein_dp_def fillTable_def
  by (rule filled_fillTable_prefix [OF filled_init le_refl])

lemma cell_levenshtein_dp:
  assumes "i \<le> length a" "j \<le> length b"
  shows "cell (levenshtein_dp a b) i j = wrapDist a b i j"
  using filled_levenshtein_dp [of a b] assms
  by (auto simp: filled_def le_less)

lemma levenshtein_wrapDist:
  "levenshtein a b =
     (if a = [] then length b else if b = [] then length a
      else wrapDist a b (length a) (length b))"
  by (simp add: levenshtein_def cell_levenshtein_dp)

section \<open>The recurrence is the least number of edits\<close>

lemma editDist_Nil2: "editDist xs [] = length xs"
  by (cases xs) simp_all

lemma editDist_same: "editDist xs xs = 0"
  by (induction xs) simp_all

lemma editDist_sym: "editDist xs ys = editDist ys xs"
  by (induction xs ys rule: editDist.induct) (simp_all add: editDist_Nil2 min.commute min.left_commute)

lemma editDist_le_max: "editDist xs ys \<le> max (length xs) (length ys)"
  by (induction xs ys rule: editDist.induct) auto

lemma editDist_drop_head:
  "editDist (x # xs) ys \<le> Suc (editDist xs ys) \<and> editDist xs ys \<le> Suc (editDist (x # xs) ys)"
proof (induction "length xs + length ys" arbitrary: xs ys x rule: less_induct)
  case less
  show ?case
  proof (cases ys)
    case Nil
    then show ?thesis by (simp add: editDist_Nil2)
  next
    case (Cons y ys')
    have s1: "editDist xs (y # ys') \<le> Suc (editDist xs ys')"
      using less [of ys' xs y] Cons by (simp add: editDist_sym [of xs])
    have s2: "editDist xs ys' \<le> Suc (editDist xs (y # ys'))"
      using less [of ys' xs y] Cons by (simp add: editDist_sym [of xs])
    have s3: "editDist xs ys' \<le> Suc (editDist (x # xs) ys')"
      using less [of xs ys' x] Cons by simp
    show ?thesis
    proof (cases "x = y")
      case True
      with Cons s1 s2 show ?thesis by simp
    next
      case False
      with Cons s1 s2 s3 show ?thesis by (simp add: min_def)
    qed
  qed
qed

lemma editDist_subst_head: "editDist (c # xs) ys \<le> Suc (editDist (d # xs) ys)"
proof (induction ys)
  case Nil
  show ?case by simp
next
  case (Cons y ys)
  have a: "editDist (c # xs) (y # ys) \<le> Suc (editDist xs ys)"
    by (simp add: min.coboundedI1)
  have b: "editDist (c # xs) (y # ys) \<le> Suc (editDist (c # xs) ys)"
    using editDist_drop_head [of y ys "c # xs"] by (simp add: editDist_sym [of _ "c # xs"])
  have c: "editDist (c # xs) (y # ys) \<le> Suc (editDist xs (y # ys))"
    using editDist_drop_head [of c xs "y # ys"] by simp
  show ?case
  proof (cases "d = y")
    case True
    with a show ?thesis by simp
  next
    case False
    define L where "L = editDist (c # xs) (y # ys)"
    have "editDist (d # xs) (y # ys) =
        Suc (min (editDist xs ys) (min (editDist (d # xs) ys) (editDist xs (y # ys))))"
      using False by simp
    moreover have "L \<le> Suc (Suc (editDist xs ys))" using a by (simp add: L_def)
    moreover have "L \<le> Suc (Suc (editDist (d # xs) ys))"
      using b Cons.IH by (simp add: L_def)
    moreover have "L \<le> Suc (Suc (editDist xs (y # ys)))" using c by (simp add: L_def)
    ultimately have "L \<le> Suc (editDist (d # xs) (y # ys))" by (simp only: min_def) presburger
    then show ?thesis by (simp only: L_def)
  qed
qed

lemma editDist_cons_mono:
  assumes "\<And>ys. editDist xs ys \<le> Suc (editDist xs' ys)"
  shows "editDist (c # xs) ys \<le> Suc (editDist (c # xs') ys)"
proof (induction ys)
  case Nil
  from assms [of "[]"] show ?case by (simp add: editDist_Nil2)
next
  case (Cons y ys)
  show ?case
  proof (cases "c = y")
    case True
    with assms [of ys] show ?thesis by simp
  next
    case False
    with assms [of ys] assms [of "y # ys"] Cons.IH show ?thesis
      by (simp add: min_def)
  qed
qed

lemma editDist_edit1: "edit1 a a' \<Longrightarrow> editDist a b \<le> Suc (editDist a' b)"
proof (induction a a' arbitrary: b rule: edit1.induct)
  case (insertion xs ys c)
  show ?case
  proof (induction xs arbitrary: b)
    case Nil
    show ?case using editDist_drop_head [of c ys b] by simp
  next
    case (Cons x xs)
    show ?case using editDist_cons_mono [OF Cons.IH] by simp
  qed
next
  case (deletion xs c ys)
  show ?case
  proof (induction xs arbitrary: b)
    case Nil
    show ?case using editDist_drop_head [of c ys b] by simp
  next
    case (Cons x xs)
    show ?case using editDist_cons_mono [OF Cons.IH] by simp
  qed
next
  case (substitution xs c ys d)
  show ?case
  proof (induction xs arbitrary: b)
    case Nil
    show ?case using editDist_subst_head [of c ys b d] by simp
  next
    case (Cons x xs)
    show ?case using editDist_cons_mono [OF Cons.IH] by simp
  qed
qed

lemma editDist_lower: "(edit1 ^^ n) a b \<Longrightarrow> editDist a b \<le> n"
proof (induction n arbitrary: a)
  case 0
  then show ?case by (simp add: editDist_same)
next
  case (Suc n)
  then obtain a' where "edit1 a a'" "(edit1 ^^ n) a' b"
    by (blast dest: relpowp_Suc_D2)
  with Suc.IH [of a'] editDist_edit1 [of a a' b] show ?case by simp
qed

lemma edit1_Cons: "edit1 xs ys \<Longrightarrow> edit1 (c # xs) (c # ys)"
proof (induction rule: edit1.induct)
  case (insertion xs ys d)
  from edit1.insertion [of "c # xs" ys d] show ?case by simp
next
  case (deletion xs d ys)
  from edit1.deletion [of "c # xs" d ys] show ?case by simp
next
  case (substitution xs d ys e)
  from edit1.substitution [of "c # xs" d ys e] show ?case by simp
qed

lemma edits_Cons: "(edit1 ^^ n) xs ys \<Longrightarrow> (edit1 ^^ n) (c # xs) (c # ys)"
proof (induction n arbitrary: ys)
  case 0
  then show ?case by simp
next
  case (Suc n)
  then obtain zs where "(edit1 ^^ n) xs zs" "edit1 zs ys" by auto
  with Suc.IH [of zs] edit1_Cons [of zs ys c] show ?case by auto
qed

lemma edits_insert_all: "(edit1 ^^ length ys) [] ys"
proof (induction ys)
  case Nil
  show ?case by simp
next
  case (Cons y ys)
  have "edit1 [] [y]" using edit1.insertion [of "[]" "[]" y] by simp
  moreover have "(edit1 ^^ length ys) [y] (y # ys)" using edits_Cons [OF Cons.IH] .
  ultimately have "(edit1 ^^ Suc (length ys)) [] (y # ys)" by (rule relpowp_Suc_I2)
  then show ?case by simp
qed

lemma edits_delete_all: "(edit1 ^^ length xs) xs []"
proof (induction xs)
  case Nil
  show ?case by simp
next
  case (Cons x xs)
  have "edit1 (x # xs) xs" using edit1.deletion [of "[]" x xs] by simp
  then have "(edit1 ^^ Suc (length xs)) (x # xs) []" using Cons.IH by (rule relpowp_Suc_I2)
  then show ?case by simp
qed

lemma editDist_upper: "(edit1 ^^ editDist a b) a b"
proof (induction a b rule: editDist.induct)
  case (1 ys)
  show ?case using edits_insert_all [of ys] by simp
next
  case (2 x xs)
  show ?case using edits_delete_all [of "x # xs"] by simp
next
  case (3 x xs y ys)
  show ?case
  proof (cases "x = y")
    case True
    with 3 show ?thesis by (simp add: edits_Cons)
  next
    case False
    let ?d1 = "editDist xs ys" and ?d2 = "editDist (x # xs) ys" and ?d3 = "editDist xs (y # ys)"
    have p1: "(edit1 ^^ Suc ?d1) (x # xs) (y # ys)"
    proof -
      have "edit1 (x # xs) (y # xs)" using edit1.substitution [of "[]" x xs y] by simp
      moreover have "(edit1 ^^ ?d1) (y # xs) (y # ys)" using 3(2) [OF False] by (rule edits_Cons)
      ultimately show ?thesis by (rule relpowp_Suc_I2)
    qed
    have p2: "(edit1 ^^ Suc ?d2) (x # xs) (y # ys)"
    proof -
      have "edit1 ys (y # ys)" using edit1.insertion [of "[]" ys y] by simp
      with 3(3) [OF False] show ?thesis by (rule relpowp_Suc_I)
    qed
    have p3: "(edit1 ^^ Suc ?d3) (x # xs) (y # ys)"
    proof -
      have "edit1 (x # xs) xs" using edit1.deletion [of "[]" x xs] by simp
      then show ?thesis using 3(4) [OF False] by (rule relpowp_Suc_I2)
    qed
    have "editDist (x # xs) (y # ys) = Suc ?d1 \<or> editDist (x # xs) (y # ys) = Suc ?d2
        \<or> editDist (x # xs) (y # ys) = Suc ?d3"
      using False by (simp add: min_def)
    with p1 p2 p3 show ?thesis by metis
  qed
qed

lemma edit1_rev: "edit1 a b \<Longrightarrow> edit1 (rev a) (rev b)"
proof (induction rule: edit1.induct)
  case (insertion xs ys c)
  from edit1.insertion [of "rev ys" "rev xs" c] show ?case by simp
next
  case (deletion xs c ys)
  from edit1.deletion [of "rev ys" c "rev xs"] show ?case by simp
next
  case (substitution xs c ys d)
  from edit1.substitution [of "rev ys" c "rev xs" d] show ?case by simp
qed

lemma edits_rev: "(edit1 ^^ n) a b \<Longrightarrow> (edit1 ^^ n) (rev a) (rev b)"
proof (induction n arbitrary: b)
  case 0
  then show ?case by simp
next
  case (Suc n)
  then obtain c where "(edit1 ^^ n) a c" "edit1 c b" by auto
  with Suc.IH [of c] edit1_rev [of c b] show ?case by auto
qed

lemma editDist_rev: "editDist (rev a) (rev b) = editDist a b"
proof (rule antisym)
  show "editDist (rev a) (rev b) \<le> editDist a b"
    by (rule editDist_lower [OF edits_rev [OF editDist_upper]])
  show "editDist a b \<le> editDist (rev a) (rev b)"
    using editDist_lower [OF edits_rev [OF editDist_upper [of "rev a" "rev b"]]] by simp
qed

lemma wrapDist_editDist:
  "length a \<le> 65535 \<Longrightarrow> length b \<le> 65535 \<Longrightarrow> i \<le> length a \<Longrightarrow> j \<le> length b \<Longrightarrow>
    wrapDist a b i j = editDist (rev (take i a)) (rev (take j b))"
proof (induction a b i j rule: wrapDist.induct)
  case (1 a b j)
  then have "j < 65536" by linarith
  with 1 show ?case by (simp add: u16_def min_absorb2)
next
  case (2 a b i)
  then have "Suc i < 65536" by linarith
  with 2 show ?case by (simp add: u16_def editDist_Nil2 min_absorb2)
next
  case (3 a b i j)
  let ?A = "rev (take i a)" and ?B = "rev (take j b)"
  from 3 have i: "i < length a" and j: "j < length b" by simp_all
  have ra: "rev (take (Suc i) a) = a ! i # ?A" using i by (simp add: take_Suc_conv_app_nth)
  have rb: "rev (take (Suc j) b) = b ! j # ?B" using j by (simp add: take_Suc_conv_app_nth)
  have bound: "editDist (a ! i # ?A) (b ! j # ?B) < 65536"
  proof -
    have "editDist (a ! i # ?A) (b ! j # ?B) \<le> max (Suc i) (Suc j)"
      using editDist_le_max [of "a ! i # ?A" "b ! j # ?B"] i j by (simp add: min_absorb2)
    with i j 3 show ?thesis by linarith
  qed
  show ?case
  proof (cases "a ! i = b ! j")
    case True
    have "wrapDist a b (Suc i) (Suc j) = u16 (editDist ?A ?B)"
      using True 3 by simp
    also have "editDist ?A ?B = editDist (a ! i # ?A) (b ! j # ?B)" using True by simp
    also have "u16 \<dots> = \<dots>" using bound by (simp add: u16_def)
    finally show ?thesis by (simp add: ra rb)
  next
    case False
    have "wrapDist a b (Suc i) (Suc j) =
        u16 (min (editDist ?A ?B + 1)
          (min (editDist (a ! i # ?A) ?B + 1) (editDist ?A (b ! j # ?B) + 1)))"
      using False 3 i j by (simp add: ra rb)
    also have "min (editDist ?A ?B + 1)
          (min (editDist (a ! i # ?A) ?B + 1) (editDist ?A (b ! j # ?B) + 1))
        = editDist (a ! i # ?A) (b ! j # ?B)"
      using False by (simp add: min_def)
    also have "u16 \<dots> = \<dots>" using bound by (simp add: u16_def)
    finally show ?thesis by (simp add: ra rb)
  qed
qed

lemma levenshtein_editDist:
  assumes "length a \<le> 65535" "length b \<le> 65535"
  shows "levenshtein a b = editDist a b"
proof -
  have "wrapDist a b (length a) (length b) = editDist a b"
    using wrapDist_editDist [OF assms le_refl le_refl] by (simp add: editDist_rev)
  then show ?thesis
    by (simp add: levenshtein_wrapDist editDist_Nil2)
qed

lemma edit1_length: "edit1 a b \<Longrightarrow> length a \<le> Suc (length b)"
  by (induction rule: edit1.induct) simp_all

lemma edits_length: "(edit1 ^^ n) a b \<Longrightarrow> length a \<le> length b + n"
proof (induction n arbitrary: b)
  case 0
  then show ?case by simp
next
  case (Suc n)
  then obtain c where "(edit1 ^^ n) a c" "edit1 c b" by auto
  with Suc.IH [of c] edit1_length [of c b] show ?case by simp
qed

lemma wrapDist_distinct_column:
  assumes "\<forall>k < length a. a ! k \<noteq> y" "i \<le> length a"
  shows "wrapDist a [y] i 1 = (if i mod 65536 = 0 then 1 else i mod 65536)"
  using assms(2)
proof (induction i)
  case 0
  show ?case by (simp add: u16_def)
next
  case (Suc i)
  then have IH: "wrapDist a [y] i (Suc 0) = (if i mod 65536 = 0 then 1 else i mod 65536)"
    and ne: "a ! i \<noteq> y" using assms(1) by simp_all
  have step: "wrapDist a [y] (Suc i) (Suc 0) =
      u16 (min (u16 i + 1) (min (u16 (Suc i) + 1) (wrapDist a [y] i (Suc 0) + 1)))"
    using ne by (simp add: wrapDist_col0)
  have lt: "i mod 65536 < 65536" by simp
  consider (z) "i mod 65536 = 0" | (m) "0 < i mod 65536" "i mod 65536 < 65535" | (t) "i mod 65536 = 65535"
    using lt by linarith
  then show ?case
  proof cases
    case z
    then have "Suc i mod 65536 = 1" by (simp add: mod_Suc)
    with z IH step show ?thesis by (simp add: u16_def)
  next
    case m
    then have s: "Suc i mod 65536 = Suc (i mod 65536)" by (simp add: mod_Suc)
    have "u16 (Suc (i mod 65536)) = Suc (i mod 65536)" using m by (simp add: u16_def)
    with m IH step s show ?thesis by (simp add: u16_def)
  next
    case t
    then have "Suc i mod 65536 = 0" by (simp add: mod_Suc)
    with t IH step show ?thesis by (simp add: u16_def)
  qed
qed

lemma levenshtein_long_value:
  assumes "x \<noteq> y"
  shows "levenshtein (replicate 65536 x) [y] = 1"
proof -
  let ?a = "replicate 65536 x"
  have len: "length ?a = 65536" by (simp only: length_replicate)
  have ne: "\<forall>k < length ?a. ?a ! k \<noteq> y" using assms by (simp only: length_replicate nth_replicate) simp
  have "wrapDist ?a [y] (length ?a) 1 = (if length ?a mod 65536 = 0 then 1 else length ?a mod 65536)"
    by (rule wrapDist_distinct_column [OF ne le_refl])
  then have w: "wrapDist ?a [y] (length ?a) (length [y]) = 1" by (simp only: len) simp
  have "?a \<noteq> []" using len by (metis length_0_conv zero_neq_numeral)
  then show ?thesis by (simp only: levenshtein_wrapDist w) simp
qed

lemma wrapDist_less: "wrapDist a b i j < 65536"
  by (cases "(a, b, i, j)" rule: wrapDist.cases) (simp_all add: u16_def)

lemma cell_recurrence:
  assumes "length a \<le> 65535" "length b \<le> 65535"
    and "1 \<le> i" "i \<le> length a" "1 \<le> j" "j \<le> length b"
  shows "cell (levenshtein_dp a b) i j =
     (if a ! (i - 1) = b ! (j - 1) then cell (levenshtein_dp a b) (i - 1) (j - 1)
      else 1 + min (cell (levenshtein_dp a b) (i - 1) (j - 1))
                   (min (cell (levenshtein_dp a b) i (j - 1)) (cell (levenshtein_dp a b) (i - 1) j)))"
proof -
  obtain i' j' where ij: "i = Suc i'" "j = Suc j'"
    using assms(3,5) by (cases i; cases j) auto
  let ?W = "wrapDist a b"
  have c: "cell (levenshtein_dp a b) (Suc i') (Suc j') = ?W (Suc i') (Suc j')"
      "cell (levenshtein_dp a b) i' j' = ?W i' j'"
      "cell (levenshtein_dp a b) (Suc i') j' = ?W (Suc i') j'"
      "cell (levenshtein_dp a b) i' (Suc j') = ?W i' (Suc j')"
    using assms(4,6) ij by (simp_all add: cell_levenshtein_dp)
  have "?W i' j' = editDist (rev (take i' a)) (rev (take j' b))"
    using wrapDist_editDist [OF assms(1,2), of i' j'] assms(4,6) ij by simp
  also have "\<dots> \<le> max i' j'"
    using editDist_le_max [of "rev (take i' a)" "rev (take j' b)"] assms(4,6) ij
    by (simp add: min_absorb2)
  finally have d: "?W i' j' + 1 < 65536" using assms ij by linarith
  show ?thesis
  proof (cases "a ! i' = b ! j'")
    case True
    then have "?W i j = u16 (?W i' j')" by (simp add: ij)
    also have "\<dots> = ?W i' j'" using wrapDist_less [of a b i' j'] by (simp add: u16_def)
    finally show ?thesis using True by (simp add: c ij)
  next
    case False
    let ?X = "min (?W i' j' + 1) (min (?W i j' + 1) (?W i' j + 1))"
    have "?X \<le> ?W i' j' + 1" by simp
    with d have "?X < 65536" by linarith
    then have "u16 ?X = ?X" by (simp add: u16_def)
    moreover have "?W i j = u16 ?X" using False by (simp add: ij)
    ultimately have "?W i j = ?X" by simp
    also have "\<dots> = 1 + min (?W i' j') (min (?W i j') (?W i' j))" by (simp add: min_def)
    finally show ?thesis using False by (simp add: c ij)
  qed
qed

section \<open>Normalization\<close>

lemma lowerChar_kept: "keptChar c \<Longrightarrow> lowerChar c = c"
  by (auto simp: keptChar_def lowerChar_def Let_def)

lemma toLowerCase_kept: "\<forall>c \<in> set s. keptChar c \<Longrightarrow> toLowerCase s = s"
  by (simp add: toLowerCase_def lowerChar_kept map_idI)

lemma set_trim: "set (trim s) \<subseteq> set s"
proof
  fix c assume "c \<in> set (trim s)"
  then have "c \<in> set (dropWhile isWhiteSpace (rev (dropWhile isWhiteSpace s)))"
    by (simp add: trim_def)
  then have "c \<in> set (rev (dropWhile isWhiteSpace s))" by (rule set_dropWhileD)
  then have "c \<in> set (dropWhile isWhiteSpace s)" by simp
  then show "c \<in> set s" by (rule set_dropWhileD)
qed

lemma trim_idem: "trim (trim s) = trim s"
proof -
  define u where "u = dropWhile isWhiteSpace s"
  define v where "v = dropWhile isWhiteSpace (rev u)"
  have t: "trim s = rev v" by (simp add: trim_def u_def v_def)
  have "rev u = takeWhile isWhiteSpace (rev u) @ v" by (simp add: v_def)
  then have "rev (rev u) = rev (takeWhile isWhiteSpace (rev u) @ v)" by simp
  then have u: "u = rev v @ rev (takeWhile isWhiteSpace (rev u))" by simp
  have front: "dropWhile isWhiteSpace (rev v) = rev v"
  proof (cases "v = []")
    case True
    then show ?thesis by simp
  next
    case False
    then have "hd u = hd (rev v)" using u by (metis hd_append2 rev_is_Nil_conv)
    moreover have "u \<noteq> []" using False u by auto
    then have "\<not> isWhiteSpace (hd u)" unfolding u_def by (rule hd_dropWhile)
    ultimately show ?thesis using False by (simp add: dropWhile_eq_self_iff)
  qed
  have rear: "dropWhile isWhiteSpace v = v" by (simp add: v_def)
  have "trim (rev v) = rev v" by (simp add: trim_def front rear)
  with t show ?thesis by simp
qed

lemma normalize_kept: "\<forall>c \<in> set (normalize s). keptChar c"
  using set_trim [of "filter keptChar (toLowerCase s)"] by (auto simp: normalize_def)

section \<open>The score of a record\<close>










lemma scoreFields_Cons:
  "scoreFields nq qw item (key # keys) best =
     (if fieldText item key = [] then scoreFields nq qw item keys best
      else if fieldText item key = nq then 0
      else if prefix nq (fieldText item key) then 1
      else scoreFields nq qw item keys (fieldStep nq qw (fieldText item key) best))"
  by (simp add: fieldText_def fieldStep_def Let_def)






lemma scoreFields_skip_empty:
  assumes "fieldText item key = []"
  shows "scoreFields nq qw item keys best = scoreFields nq qw item (removeAll key keys) best"
proof (induction keys arbitrary: best)
  case Nil
  show ?case by simp
next
  case (Cons k keys)
  show ?case
  proof (cases "k = key")
    case True
    then have r: "removeAll key (k # keys) = removeAll key keys" by simp
    have "scoreFields nq qw item (k # keys) best = scoreFields nq qw item keys best"
      using assms True by (simp add: scoreFields_Cons del: scoreFields.simps)
    then show ?thesis unfolding r Cons.IH .
  next
    case False
    then have r: "removeAll key (k # keys) = k # removeAll key keys" by simp
    show ?thesis unfolding r scoreFields_Cons Cons.IH ..
  qed
qed


section \<open>Ranking and the cache\<close>

lemma insort_key_pairs:
  assumes "\<forall>p \<in> set ys. snd p = f (fst p)"
  shows "map fst (insort_key snd (x, f x) ys) = insort_key f x (map fst ys)"
  using assms by (induction ys) auto

lemma sort_key_pairs:
  assumes "\<forall>p \<in> set ps. snd p = f (fst p)"
  shows "map fst (sort_key snd ps) = sort_key f (map fst ps) \<and>
         (\<forall>p \<in> set (sort_key snd ps). snd p = f (fst p))"
  using assms
proof (induction ps)
  case Nil
  show ?case by simp
next
  case (Cons p ps)
  then have IH: "map fst (sort_key snd ps) = sort_key f (map fst ps)"
      "\<forall>p \<in> set (sort_key snd ps). snd p = f (fst p)" by simp_all
  from Cons.prems have p: "p = (fst p, f (fst p))" by (cases p) simp
  have "map fst (sort_key snd (p # ps)) = map fst (insort_key snd (fst p, f (fst p)) (sort_key snd ps))"
    using p by simp
  also have "\<dots> = insort_key f (fst p) (map fst (sort_key snd ps))"
    by (rule insort_key_pairs [OF IH(2)])
  finally have a: "map fst (sort_key snd (p # ps)) = sort_key f (map fst (p # ps))"
    by (simp add: IH(1))
  have "set (sort_key snd (p # ps)) = set (p # ps)" by (rule set_sort)
  with Cons.prems have b: "\<forall>q \<in> set (sort_key snd (p # ps)). snd q = f (fst q)"
    by (simp only:)
  from a b show ?case by blast
qed

lemma rankItems_sort:
  "rankItems nq keys thr lmt items =
     sliceLimit lmt (sort_key (scoreItem nq (splitWhiteSpace nq) keys)
       (filter (\<lambda>item. withinThreshold thr (scoreItem nq (splitWhiteSpace nq) keys item)) items))"
proof -
  let ?sc = "scoreItem nq (splitWhiteSpace nq) keys"
  let ?ps = "filter (\<lambda>result. withinThreshold thr (snd result)) (map (\<lambda>item. (item, ?sc item)) items)"
  have "\<forall>p \<in> set ?ps. snd p = ?sc (fst p)" by auto
  then have "map fst (sort_key snd ?ps) = sort_key ?sc (map fst ?ps)"
    using sort_key_pairs [of ?ps ?sc] by blast
  moreover have "map fst ?ps = filter (\<lambda>item. withinThreshold thr (?sc item)) items"
    by (induction items) auto
  ultimately show ?thesis by (simp add: rankItems_def Let_def)
qed

lemma sliceLimit_take: "\<exists>n. sliceLimit lmt xs = take n xs"
  by (auto simp: sliceLimit_def)

lemma fuzzySearch_miss:
  assumes "\<not> cacheHit st query threshold limit"
  shows "fst (fuzzySearch st items query keys threshold limit) =
     (if length (normalize query) < 3 then []
      else rankItems (normalize query) keys (effectiveThreshold threshold (normalize query))
             (case limit of None \<Rightarrow> 5 | Some l \<Rightarrow> l) items)"
  using assms by (auto simp: fuzzySearch_def cacheHit_def Let_def)

lemma ranked_properties:
  fixes sc :: "'a \<Rightarrow> enat"
  assumes "result = take n (sort_key sc (filter (\<lambda>item. withinThreshold thr (sc item)) items))"
  shows "sorted (map sc result)"
    and "prefix (filter (\<lambda>r. sc r = v) result) (filter (\<lambda>r. sc r = v) items)"
    and "R \<in> set items \<Longrightarrow> sc R = 0 \<Longrightarrow> j < length result \<Longrightarrow> 0 < sc (result ! j)
          \<Longrightarrow> \<exists>i<j. result ! i = R"
    and "set result \<subseteq> {item \<in> set items. withinThreshold thr (sc item)}"
proof -
  let ?F = "filter (\<lambda>item. withinThreshold thr (sc item)) items"
  let ?L = "sort_key sc ?F"
  have sL: "sorted (map sc ?L)" by (rule sorted_sort_key)
  have "map sc result = take n (map sc ?L)" by (simp add: assms take_map)
  with sL show "sorted (map sc result)" by simp
  have "prefix result ?L" unfolding assms by (rule take_is_prefix)
  then have "prefix (filter (\<lambda>r. sc r = v) result) (filter (\<lambda>r. sc r = v) ?L)"
    by (rule filter_mono_prefix)
  also have "filter (\<lambda>r. sc r = v) ?L = filter (\<lambda>r. sc r = v) ?F" by (rule sort_key_stable)
  also have "\<dots> = (if withinThreshold thr v then filter (\<lambda>r. sc r = v) items else [])"
    by (induction items) auto
  finally show "prefix (filter (\<lambda>r. sc r = v) result) (filter (\<lambda>r. sc r = v) items)"
    by (auto split: if_splits)
  show sub: "set result \<subseteq> {item \<in> set items. withinThreshold thr (sc item)}"
    unfolding assms using set_take_subset [of n ?L] by auto
  show "\<exists>i<j. result ! i = R" if R: "R \<in> set items" "sc R = 0" and j: "j < length result"
    and pos: "0 < sc (result ! j)"
  proof -
    have jL: "j < length ?L" and rj: "result ! j = ?L ! j" using j by (simp_all add: assms)
    have "result ! j \<in> set result" using j by simp
    with sub have w: "withinThreshold thr (sc (result ! j))" by auto
    have "withinThreshold thr 0"
    proof (cases "sc (result ! j)")
      case (enat m)
      with w pos show ?thesis by (simp add: withinThreshold_def zero_enat_def)
    next
      case infinity
      with w show ?thesis by (simp add: withinThreshold_def)
    qed
    with R have "R \<in> set ?L" by simp
    then obtain i where i: "i < length ?L" "?L ! i = R" unfolding in_set_conv_nth by blast
    have "i < j"
    proof (rule ccontr)
      assume "\<not> i < j"
      then have "j \<le> i" by simp
      with sL i(1) have "map sc ?L ! j \<le> map sc ?L ! i"
        by (intro sorted_nth_mono) simp_all
      with i jL R(2) pos rj show False by simp
    qed
    moreover have "result ! i = ?L ! i" using \<open>i < j\<close> j by (simp add: assms)
    ultimately show ?thesis using i(2) by auto
  qed
qed


lemma fuzzySearch_threshold_cong:
  assumes "effectiveThreshold t (normalize q) = effectiveThreshold t' (normalize q)"
  shows "fuzzySearch st items q keys t l = fuzzySearch st items q keys t' l"
  unfolding fuzzySearch_def Let_def assms ..

lemma fuzzySearch_keys_cong:
  assumes "\<forall>item \<in> set items. scoreItem (normalize query) (splitWhiteSpace (normalize query)) keys item
      = scoreItem (normalize query) (splitWhiteSpace (normalize query)) keys' item"
  shows "fuzzySearch st items query keys threshold limit =
     fuzzySearch st items query keys' threshold limit"
proof -
  have "map (\<lambda>item. (item, scoreItem (normalize query) (splitWhiteSpace (normalize query)) keys item)) items
      = map (\<lambda>item. (item, scoreItem (normalize query) (splitWhiteSpace (normalize query)) keys' item)) items"
    using assms by (intro map_cong) simp_all
  then have "rankItems (normalize query) keys thr lmt items = rankItems (normalize query) keys' thr lmt items"
    for thr lmt
    unfolding rankItems_def Let_def by (simp only:)
  then show ?thesis unfolding fuzzySearch_def Let_def by (simp only:)
qed

lemma not_cacheHit_initial: "\<not> cacheHit initialState query threshold limit"
  by (simp add: cacheHit_def initialState_def)


lemma search_cached:
  assumes "3 \<le> length (normalize query)"
    and "cache st (cacheKey (normalize query) (effectiveThreshold threshold (normalize query))
                  (case limit of None \<Rightarrow> 5 | Some l \<Rightarrow> l)) = Some r"
  shows "fuzzySearch st items query keys threshold limit = (r, st)"
  using assms by (simp add: fuzzySearch_def Let_def)

lemma sliceLimit_all:
  assumes "int (length xs) \<le> lmt"
  shows "sliceLimit lmt xs = xs"
proof -
  from assms have "0 \<le> lmt" "length xs \<le> nat lmt" by linarith+
  then show ?thesis by (simp add: sliceLimit_def)
qed

lemma set_sliceLimit: "set (sliceLimit lmt xs) \<subseteq> set xs"
  using sliceLimit_take [of lmt xs] set_take_subset by metis

lemma set_rankItems:
  "set (rankItems nq keys thr lmt items) \<subseteq>
     {item \<in> set items. withinThreshold thr (scoreItem nq (splitWhiteSpace nq) keys item)}"
  using set_sliceLimit [of lmt "sort_key (scoreItem nq (splitWhiteSpace nq) keys)
       (filter (\<lambda>item. withinThreshold thr (scoreItem nq (splitWhiteSpace nq) keys item)) items)"]
  unfolding rankItems_sort by auto

lemma set_rankItems_all:
  assumes "int (length items) \<le> lmt"
  shows "set (rankItems nq keys thr lmt items) =
     {item \<in> set items. withinThreshold thr (scoreItem nq (splitWhiteSpace nq) keys item)}"
proof -
  let ?F = "filter (\<lambda>item. withinThreshold thr (scoreItem nq (splitWhiteSpace nq) keys item)) items"
  have "length (sort_key (scoreItem nq (splitWhiteSpace nq) keys) ?F) \<le> length items" by simp
  with assms have "int (length (sort_key (scoreItem nq (splitWhiteSpace nq) keys) ?F)) \<le> lmt"
    by linarith
  from sliceLimit_all [OF this] show ?thesis unfolding rankItems_sort by auto
qed

section \<open>Evaluation of the examples\<close>

lemmas normalize_eval = normalize_def trim_def toLowerCase_def lowerChar_def keptChar_def
  isWhiteSpace_def char_of_def bit_Suc_0_iff

lemmas score_eval = scoreItem_def scoreFields_Cons fieldText_def getField_def normalize_eval
  fieldStep_def sublist_code(3) generateNGrams_def slice_def upt_conv_Cons phraseScores_def
  levenshtein_editDist zero_enat_def one_enat_def numeral_eq_enat numberToString_def

lemma normalize_abc: "normalize ''abc'' = ''abc''"
  by (simp add: normalize_eval)

lemma split_abc: "splitWhiteSpace ''abc'' = [''abc'']"
  by (simp add: isWhiteSpace_def)

lemma threshold_abc: "effectiveThreshold None ''abc'' = 3"
  by (simp add: effectiveThreshold_def)

lemma queryScore_abc: "queryScore ''abc'' keys item = scoreItem ''abc'' [''abc''] keys item"
  by (simp add: queryScore_def normalize_abc split_abc del: splitWhiteSpace.simps)

lemma score_recExact: "scoreItem ''abc'' [''abc''] [''title''] recExact = 0"
  by (simp add: score_eval del: scoreFields.simps(2))

lemma score_recNear: "scoreItem ''abc'' [''abc''] [''title''] recNear = 1"
  by (simp add: score_eval del: scoreFields.simps(2))

lemma score_recNearB: "scoreItem ''abc'' [''abc''] [''title''] recNearB = 1"
  by (simp add: score_eval del: scoreFields.simps(2))



lemma score_recNumber: "scoreItem ''123'' [''123''] [''id''] recNumber = 0"
  by (simp add: score_eval del: scoreFields.simps(2))


lemma search_abc:
  "fst (fuzzySearch initialState items ''abc'' keys None None) =
     take 5 (sort_key (scoreItem ''abc'' [''abc''] keys)
       (filter (\<lambda>item. withinThreshold 3 (scoreItem ''abc'' [''abc''] keys item)) items))"
  by (simp add: fuzzySearch_miss [OF not_cacheHit_initial] normalize_abc threshold_abc
      rankItems_sort split_abc sliceLimit_def del: splitWhiteSpace.simps)

lemma search_1: "fst (fuzzySearch initialState [recNear, recExact, recNearB] ''abc'' [''title''] None None)
   = [recExact, recNear, recNearB]"
  by (simp add: search_abc score_recExact score_recNear score_recNearB withinThreshold_def
      zero_enat_def one_enat_def)



lemma normalize_undefined: "normalize ''undefined'' = ''undefined''"
  by (simp add: normalize_eval)

lemma split_undefined: "splitWhiteSpace ''undefined'' = [''undefined'']"
  by (simp add: isWhiteSpace_def)

lemma queryScore_undefined:
  "queryScore ''undefined'' keys item = scoreItem ''undefined'' [''undefined''] keys item"
  by (simp add: queryScore_def normalize_undefined split_undefined del: splitWhiteSpace.simps)

lemma score_recFour: "scoreItem ''undefined'' [''undefined''] [''title''] recFour = 4"
  by (simp add: score_eval del: scoreFields.simps(2))

lemma score_recFive: "scoreItem ''undefined'' [''undefined''] [''title''] recFive = 5"
  by (simp add: score_eval del: scoreFields.simps(2))

lemma score_absent: "scoreItem ''undefined'' [''undefined''] [''note''] recNear = 0"
  by (simp add: score_eval del: scoreFields.simps(2))

lemma key_undefined: "cacheKey ''undefined'' 4 5 = ''undefined-4-5''"
  by (simp add: cacheKey_def numberToString_def)

lemma rank_undefined:
  "rankItems ''undefined'' keys 4 5 items =
     take 5 (sort_key (scoreItem ''undefined'' [''undefined''] keys)
       (filter (\<lambda>item. withinThreshold 4 (scoreItem ''undefined'' [''undefined''] keys item)) items))"
  by (simp add: rankItems_sort split_undefined sliceLimit_def del: splitWhiteSpace.simps)

section \<open>Claims on the edit distance\<close>

text \<open>
  Claim C3, with the bound that the table needs. For strings of at most 65535 code units
  each, \<open>levenshtein a b\<close> is the least number of single insertions, deletions and
  substitutions that turn \<open>a\<close> into \<open>b\<close> (that many edits do it, and no sequence of edits is
  shorter), and for \<open>i, j \<ge> 1\<close> the cell \<open>dp[i][j]\<close> of the finished table is the diagonal
  cell when \<open>a[i-1] = b[j-1]\<close> and otherwise one more than the least of the diagonal, left
  and upper cells. For all strings \<open>levenshtein "" b\<close> is the length of \<open>b\<close> and
  \<open>levenshtein a ""\<close> the length of \<open>a\<close>.
\<close>

theorem levenshtein_minimal_edits:
  "(length a \<le> 65535 \<and> length b \<le> 65535 \<longrightarrow>
      (edit1 ^^ levenshtein a b) a b \<and>
      (\<forall>n. (edit1 ^^ n) a b \<longrightarrow> levenshtein a b \<le> n) \<and>
      (\<forall>i j. 1 \<le> i \<and> i \<le> length a \<and> 1 \<le> j \<and> j \<le> length b \<longrightarrow>
         cell (levenshtein_dp a b) i j =
           (if a ! (i - 1) = b ! (j - 1) then cell (levenshtein_dp a b) (i - 1) (j - 1)
            else 1 + min (cell (levenshtein_dp a b) (i - 1) (j - 1))
                         (min (cell (levenshtein_dp a b) i (j - 1))
                              (cell (levenshtein_dp a b) (i - 1) j))))) \<and>
   levenshtein [] b = length b \<and>
   levenshtein a [] = length a"
proof (intro conjI allI impI)
  assume "length a \<le> 65535 \<and> length b \<le> 65535"
  then show "(edit1 ^^ levenshtein a b) a b"
    using editDist_upper [of a b] by (simp add: levenshtein_editDist)
next
  fix n assume "length a \<le> 65535 \<and> length b \<le> 65535" "(edit1 ^^ n) a b"
  then show "levenshtein a b \<le> n"
    using editDist_lower [of n a b] by (simp add: levenshtein_editDist)
next
  fix i j
  assume "length a \<le> 65535 \<and> length b \<le> 65535"
    and "1 \<le> i \<and> i \<le> length a \<and> 1 \<le> j \<and> j \<le> length b"
  then show "cell (levenshtein_dp a b) i j =
          (if a ! (i - 1) = b ! (j - 1) then cell (levenshtein_dp a b) (i - 1) (j - 1)
           else 1 + min (cell (levenshtein_dp a b) (i - 1) (j - 1))
                        (min (cell (levenshtein_dp a b) i (j - 1))
                             (cell (levenshtein_dp a b) (i - 1) j)))"
    using cell_recurrence [of a b i j] by simp
next
  show "levenshtein [] b = length b" by (simp add: levenshtein_def)
next
  show "levenshtein a [] = length a" by (simp add: levenshtein_def Let_def)
qed

text \<open>
  The theorem at \<open>ab\<close> and \<open>cb\<close>: one substitution, the distance is 1, and the last cell
  is the diagonal one, the last letters being equal.
\<close>

theorem levenshtein_minimal_edits_witness:
  "length ''ab'' \<le> 65535 \<and> length ''cb'' \<le> 65535 \<and>
   (edit1 ^^ 1) ''ab'' ''cb'' \<and> levenshtein ''ab'' ''cb'' = 1 \<and>
   cell (levenshtein_dp ''ab'' ''cb'') 2 2 = cell (levenshtein_dp ''ab'' ''cb'') 1 1 \<and>
   levenshtein [] ''cb'' = 2 \<and> levenshtein ''ab'' [] = 2"
proof -
  have la: "length ''ab'' \<le> 65535" and lb: "length ''cb'' \<le> 65535" by simp_all
  note L = levenshtein_minimal_edits [of "''ab''" "''cb''"]
  from L la lb have T: "(edit1 ^^ levenshtein ''ab'' ''cb'') ''ab'' ''cb''"
    "\<forall>n. (edit1 ^^ n) ''ab'' ''cb'' \<longrightarrow> levenshtein ''ab'' ''cb'' \<le> n"
    "\<forall>i j. 1 \<le> i \<and> i \<le> length ''ab'' \<and> 1 \<le> j \<and> j \<le> length ''cb'' \<longrightarrow>
         cell (levenshtein_dp ''ab'' ''cb'') i j =
           (if ''ab'' ! (i - 1) = ''cb'' ! (j - 1) then cell (levenshtein_dp ''ab'' ''cb'') (i - 1) (j - 1)
            else 1 + min (cell (levenshtein_dp ''ab'' ''cb'') (i - 1) (j - 1))
                         (min (cell (levenshtein_dp ''ab'' ''cb'') i (j - 1))
                              (cell (levenshtein_dp ''ab'' ''cb'') (i - 1) j)))"
    by blast+
  from L have base: "levenshtein [] ''cb'' = 2" "levenshtein ''ab'' [] = 2" by simp_all
  have e: "edit1 ''ab'' ''cb''"
    using edit1.substitution [of "[]" "CHR ''a''" "''b''" "CHR ''c''"] by simp
  then have e1: "(edit1 ^^ 1) ''ab'' ''cb''" by auto
  with T(2) have le: "levenshtein ''ab'' ''cb'' \<le> 1" by blast
  have "levenshtein ''ab'' ''cb'' \<noteq> 0"
  proof
    assume "levenshtein ''ab'' ''cb'' = 0"
    with T(1) have "(edit1 ^^ 0) ''ab'' ''cb''" by simp
    then show False by simp
  qed
  with le have v: "levenshtein ''ab'' ''cb'' = 1" by linarith
  have "1 \<le> (2::nat) \<and> 2 \<le> length ''ab'' \<and> 1 \<le> (2::nat) \<and> 2 \<le> length ''cb''" by simp
  with T(3) have "cell (levenshtein_dp ''ab'' ''cb'') 2 2 =
      (if ''ab'' ! (2 - 1) = ''cb'' ! (2 - 1) then cell (levenshtein_dp ''ab'' ''cb'') (2 - 1) (2 - 1)
       else 1 + min (cell (levenshtein_dp ''ab'' ''cb'') (2 - 1) (2 - 1))
                    (min (cell (levenshtein_dp ''ab'' ''cb'') 2 (2 - 1))
                         (cell (levenshtein_dp ''ab'' ''cb'') (2 - 1) 2)))"
    by blast
  then have c: "cell (levenshtein_dp ''ab'' ''cb'') 2 2 = cell (levenshtein_dp ''ab'' ''cb'') 1 1"
    by simp
  from la lb e1 v c base show ?thesis by blast
qed

text \<open>
  Claim C10: for strings of at most 65535 code units each, \<open>levenshtein a b\<close> is at most
  the length of the longer one.
\<close>

theorem levenshtein_le_longer:
  assumes "length a \<le> 65535" "length b \<le> 65535"
  shows "levenshtein a b \<le> max (length a) (length b)"
  using editDist_le_max [of a b] by (simp add: levenshtein_editDist [OF assms])

text \<open>The theorem at \<open>kitten\<close> and \<open>sitting\<close>.\<close>

theorem levenshtein_le_longer_witness:
  "length ''kitten'' \<le> 65535 \<and> length ''sitting'' \<le> 65535 \<and>
   levenshtein ''kitten'' ''sitting'' \<le> 7"
proof -
  have la: "length ''kitten'' \<le> 65535" and lb: "length ''sitting'' \<le> 65535" by simp_all
  from levenshtein_le_longer [OF la lb] la lb show ?thesis by simp
qed

text \<open>
  Claim C3 without the bound on the lengths fails: a cell holds a number below 65536, so for
  65536 times \<open>a\<close> against \<open>b\<close> the function returns 1, and one edit does not turn the first
  string into the second.
\<close>

theorem levenshtein_long_counterexample:
  "levenshtein (replicate 65536 CHR ''a'') ''b'' = 1 \<and>
   \<not> (edit1 ^^ levenshtein (replicate 65536 CHR ''a'') ''b'') (replicate 65536 CHR ''a'') ''b''"
proof -
  have v: "levenshtein (replicate 65536 CHR ''a'') ''b'' = 1"
    by (rule levenshtein_long_value) simp
  have "\<not> (edit1 ^^ 1) (replicate 65536 CHR ''a'') ''b''"
  proof
    assume "(edit1 ^^ 1) (replicate 65536 CHR ''a'') ''b''"
    from edits_length [OF this] show False by (simp only: length_replicate) simp
  qed
  with v show ?thesis by simp
qed

section \<open>Claims on the search\<close>




text \<open>
  Claim C2 says that a field identifier naming a field that the record does not have is
  treated as empty and skipped, so that the score of the record and the result of the search
  are those without the field identifier. The code does not do that. It reads the missing
  field as \<open>undefined\<close>, \<open>String\<close> makes the text \<open>undefined\<close> of it, and the guard that skips
  an empty text lets this text through to the scoring. For the record that has a title only,
  the query \<open>undefined\<close> over the field \<open>note\<close> gives the score 0 and returns the record;
  without the field identifier the score is \<open>Infinity\<close> and the result is empty.
\<close>

theorem absent_field_not_skipped:
  "recNear ''note'' = None \<and>
   getField recNear ''note'' = JUndefined \<and>
   fieldText recNear ''note'' = ''undefined'' \<and>
   queryScore ''undefined'' [''note''] recNear = 0 \<and>
   queryScore ''undefined'' [] recNear = \<infinity> \<and>
   fst (fuzzySearch initialState [recNear] ''undefined'' [''note''] None None) = [recNear] \<and>
   fst (fuzzySearch initialState [recNear] ''undefined'' [] None None) = []"
proof -
  have a: "recNear ''note'' = None" by simp
  have g: "getField recNear ''note'' = JUndefined" by (simp add: getField_def)
  have f: "fieldText recNear ''note'' = ''undefined''"
    by (simp add: fieldText_def g normalize_undefined)
  have t: "effectiveThreshold None ''undefined'' = 4" by (simp add: effectiveThreshold_def)
  have s: "fst (fuzzySearch initialState items ''undefined'' keys None None) =
     take 5 (sort_key (scoreItem ''undefined'' [''undefined''] keys)
       (filter (\<lambda>item. withinThreshold 4 (scoreItem ''undefined'' [''undefined''] keys item)) items))"
    for keys and items :: "string item list"
    by (simp add: fuzzySearch_miss [OF not_cacheHit_initial] normalize_undefined t rank_undefined)
  have z: "scoreItem ''undefined'' [''undefined''] [] recNear = \<infinity>" by (simp add: scoreItem_def)
  have q0: "queryScore ''undefined'' [''note''] recNear = 0"
    by (simp add: queryScore_undefined score_absent)
  have qi: "queryScore ''undefined'' [] recNear = \<infinity>" by (simp add: queryScore_undefined z)
  have r1: "fst (fuzzySearch initialState [recNear] ''undefined'' [''note''] None None) = [recNear]"
    by (simp add: s score_absent withinThreshold_def zero_enat_def)
  have r2: "fst (fuzzySearch initialState [recNear] ''undefined'' [] None None) = []"
    by (simp add: s z withinThreshold_def)
  from a g f q0 qi r1 r2 show ?thesis by blast
qed

text \<open>
  What the guard does skip is a field whose value, turned into text and normalized, is
  empty: the score of the record is the score without that field identifier, and when the
  field is empty in this sense for every record the search returns what it returns without
  that field identifier.
\<close>

lemma empty_field_skipped:
  "(fieldText item key = [] \<longrightarrow>
      scoreItem nq qw keys item = scoreItem nq qw (removeAll key keys) item) \<and>
   ((\<forall>item \<in> set items. fieldText item key = []) \<longrightarrow>
      fuzzySearch st items query keys threshold limit =
      fuzzySearch st items query (removeAll key keys) threshold limit)"
proof (intro conjI impI)
  assume "fieldText item key = []"
  then show "scoreItem nq qw keys item = scoreItem nq qw (removeAll key keys) item"
    unfolding scoreItem_def by (rule scoreFields_skip_empty)
next
  assume a: "\<forall>item \<in> set items. fieldText item key = []"
  show "fuzzySearch st items query keys threshold limit =
      fuzzySearch st items query (removeAll key keys) threshold limit"
  proof (rule fuzzySearch_keys_cong, rule ballI)
    fix item assume "item \<in> set items"
    with a have "fieldText item key = []" by blast
    then show "scoreItem (normalize query) (splitWhiteSpace (normalize query)) keys item
      = scoreItem (normalize query) (splitWhiteSpace (normalize query)) (removeAll key keys) item"
      unfolding scoreItem_def by (rule scoreFields_skip_empty)
  qed
qed

text \<open>At a record with the title \<open>abc\<close> and a note of punctuation only.\<close>

lemma empty_field_skipped_example:
  "fieldText recEmptyNote ''note'' = [] \<and>
   scoreItem ''abc'' [''abc''] [''note'', ''title''] recEmptyNote = 0 \<and>
   scoreItem ''abc'' [''abc''] [''title''] recEmptyNote = 0 \<and>
   fuzzySearch initialState [recEmptyNote] ''abc'' [''note'', ''title''] None None =
   fuzzySearch initialState [recEmptyNote] ''abc'' [''title''] None None"
proof -
  have e: "fieldText recEmptyNote ''note'' = []"
    by (simp add: fieldText_def getField_def normalize_eval)
  have r: "removeAll ''note'' [''note'', ''title''] = [''title'']" by simp
  note T = empty_field_skipped [of recEmptyNote "''note''" "''abc''" "[''abc'']" "[''note'', ''title'']"
      "[recEmptyNote]" initialState "''abc''" None None, unfolded r]
  have s: "scoreItem ''abc'' [''abc''] [''title''] recEmptyNote = 0"
    by (simp add: score_eval del: scoreFields.simps(2))
  from T e have "scoreItem ''abc'' [''abc''] [''note'', ''title''] recEmptyNote
      = scoreItem ''abc'' [''abc''] [''title''] recEmptyNote" by blast
  moreover from T e have "fuzzySearch initialState [recEmptyNote] ''abc'' [''note'', ''title''] None None =
      fuzzySearch initialState [recEmptyNote] ''abc'' [''title''] None None" by simp
  ultimately show ?thesis using e s by simp
qed

text \<open>
  A value that is not text goes the same way as the missing field: \<open>String\<close> turns the
  number 123 into the text \<open>123\<close>, which is scored like any text.
\<close>

lemma nontext_field_scored:
  "getField recNumber ''id'' = JNumber 123 \<and>
   queryScore ''123'' [''id''] recNumber = 0 \<and>
   queryScore ''123'' [] recNumber = \<infinity> \<and>
   fst (fuzzySearch initialState [recNumber] ''123'' [''id''] None None) = [recNumber] \<and>
   fst (fuzzySearch initialState [recNumber] ''123'' [] None None) = []"
proof -
  have n: "normalize ''123'' = ''123''" by (simp add: normalize_eval)
  have w: "splitWhiteSpace ''123'' = [''123'']" by (simp add: isWhiteSpace_def)
  have q: "queryScore ''123'' keys item = scoreItem ''123'' [''123''] keys item" for keys and item :: "string item"
    by (simp add: queryScore_def n w del: splitWhiteSpace.simps)
  have t: "effectiveThreshold None ''123'' = 3" by (simp add: effectiveThreshold_def)
  have s: "fst (fuzzySearch initialState items ''123'' keys None None) =
     take 5 (sort_key (scoreItem ''123'' [''123''] keys)
       (filter (\<lambda>item. withinThreshold 3 (scoreItem ''123'' [''123''] keys item)) items))"
    for keys and items :: "string item list"
    by (simp add: fuzzySearch_miss [OF not_cacheHit_initial] n t
      rankItems_sort w sliceLimit_def del: splitWhiteSpace.simps)
  have z: "scoreItem ''123'' [''123''] [] recNumber = \<infinity>" by (simp add: scoreItem_def)
  have "getField recNumber ''id'' = JNumber 123" by (simp add: getField_def)
  moreover have "queryScore ''123'' [''id''] recNumber = 0" by (simp add: q score_recNumber)
  moreover have "queryScore ''123'' [] recNumber = \<infinity>" by (simp add: q z)
  moreover have "fst (fuzzySearch initialState [recNumber] ''123'' [''id''] None None) = [recNumber]"
    by (simp add: s score_recNumber withinThreshold_def zero_enat_def)
  moreover have "fst (fuzzySearch initialState [recNumber] ''123'' [] None None) = []"
    by (simp add: s z withinThreshold_def)
  ultimately show ?thesis by blast
qed




text \<open>
  Claim C5: when the normalized query has fewer than 3 code units the search returns the
  empty sequence, whatever the records, field identifiers, threshold and limit (and leaves
  the state as it is).
\<close>

theorem short_query_empty:
  "length (normalize query) < 3 \<Longrightarrow> fuzzySearch st items query keys threshold limit = ([], st)"
  by (simp add: fuzzySearch_def)

text \<open>
  The theorem at the query \<open>A-b!\<close>, which normalizes to \<open>ab\<close>.
\<close>

theorem short_query_empty_witness:
  "length (normalize ''A-b!'') < 3 \<and>
   fuzzySearch initialState [recExact] ''A-b!'' [''title''] (Some 100) None = ([], initialState)"
proof -
  have l: "length (normalize ''A-b!'') < 3" by (simp add: normalize_eval)
  from short_query_empty [OF l] l show ?thesis by blast
qed

text \<open>
  Claim C6: without a threshold from the caller the effective threshold is
  \<open>max(3, floor(0.45 * n))\<close>, \<open>n\<close> the length of the normalized query, and this number is
  what the search filters with and what it puts into the cache key. The call is the call
  with that threshold given (same result, same state). When the normalized query has at
  least 3 code units, the entry looked up in the cache is the one under the key made of the
  normalized query, this number and the limit; when there is no such entry, the result is
  the ranking of the records filtered with this number, it is stored under that key, every
  record of the result has a score within this number, and when the limit does not cut the
  result it has exactly the records whose score is within this number. A query that
  normalizes to \<open>hello\<close> has the threshold 3.
\<close>

theorem default_threshold:
  "effectiveThreshold None (normalize query) = max 3 \<lfloor>0.45 * real (length (normalize query))\<rfloor> \<and>
   fuzzySearch st items query keys None limit =
     fuzzySearch st items query keys (Some (max 3 \<lfloor>0.45 * real (length (normalize query))\<rfloor>)) limit \<and>
   (3 \<le> length (normalize query) \<longrightarrow>
      (\<forall>cached.
         cache st (cacheKey (normalize query) (max 3 \<lfloor>0.45 * real (length (normalize query))\<rfloor>)
                     (case limit of None \<Rightarrow> 5 | Some l \<Rightarrow> l)) = Some cached \<longrightarrow>
         fuzzySearch st items query keys None limit = (cached, st)) \<and>
      (cache st (cacheKey (normalize query) (max 3 \<lfloor>0.45 * real (length (normalize query))\<rfloor>)
                     (case limit of None \<Rightarrow> 5 | Some l \<Rightarrow> l)) = None \<longrightarrow>
         fst (fuzzySearch st items query keys None limit) =
           rankItems (normalize query) keys (max 3 \<lfloor>0.45 * real (length (normalize query))\<rfloor>)
             (case limit of None \<Rightarrow> 5 | Some l \<Rightarrow> l) items \<and>
         cache (snd (fuzzySearch st items query keys None limit)) =
           (cache st)
             (cacheKey (normalize query) (max 3 \<lfloor>0.45 * real (length (normalize query))\<rfloor>)
                (case limit of None \<Rightarrow> 5 | Some l \<Rightarrow> l)
              \<mapsto> fst (fuzzySearch st items query keys None limit)) \<and>
         set (fst (fuzzySearch st items query keys None limit)) \<subseteq>
           {item \<in> set items.
              withinThreshold (max 3 \<lfloor>0.45 * real (length (normalize query))\<rfloor>)
                (queryScore query keys item)} \<and>
         (int (length items) \<le> (case limit of None \<Rightarrow> 5 | Some l \<Rightarrow> l) \<longrightarrow>
            set (fst (fuzzySearch st items query keys None limit)) =
              {item \<in> set items.
                 withinThreshold (max 3 \<lfloor>0.45 * real (length (normalize query))\<rfloor>)
                   (queryScore query keys item)}))) \<and>
   (normalize query = ''hello'' \<longrightarrow> effectiveThreshold None (normalize query) = 3)"
proof -
  let ?nq = "normalize query"
  let ?d = "max 3 \<lfloor>0.45 * real (length ?nq)\<rfloor>"
  let ?lmt = "case limit of None \<Rightarrow> 5 | Some l \<Rightarrow> l"
  let ?key = "cacheKey ?nq ?d ?lmt"
  let ?out = "fuzzySearch st items query keys None limit"
  have d: "effectiveThreshold None ?nq = ?d"
    by (simp add: effectiveThreshold_def mult.commute)
  have e: "effectiveThreshold None ?nq = effectiveThreshold (Some ?d) ?nq"
    by (simp add: effectiveThreshold_def mult.commute)
  have c2: "?out = fuzzySearch st items query keys (Some ?d) limit"
    by (rule fuzzySearch_threshold_cong [OF e])
  have hit: "?out = (cached, st)" if "3 \<le> length ?nq" "cache st ?key = Some cached" for cached
    using that by (intro search_cached) (simp_all only: d)
  have miss: "?out = (rankItems ?nq keys ?d ?lmt items,
      st\<lparr>cache := (cache st)(?key \<mapsto> rankItems ?nq keys ?d ?lmt items),
         scoreCalls := scoreCalls st + length items\<rparr>)"
    if "3 \<le> length ?nq" "cache st ?key = None"
    using that unfolding fuzzySearch_def Let_def d by simp
  have m1: "fst ?out = rankItems ?nq keys ?d ?lmt items"
    if "3 \<le> length ?nq" "cache st ?key = None" using miss [OF that] by simp
  have m2: "cache (snd ?out) = (cache st)(?key \<mapsto> fst ?out)"
    if "3 \<le> length ?nq" "cache st ?key = None" using miss [OF that] by simp
  have m3: "set (fst ?out) \<subseteq> {item \<in> set items. withinThreshold ?d (queryScore query keys item)}"
    if "3 \<le> length ?nq" "cache st ?key = None"
    unfolding m1 [OF that] queryScore_def by (rule set_rankItems)
  have m4: "set (fst ?out) = {item \<in> set items. withinThreshold ?d (queryScore query keys item)}"
    if "3 \<le> length ?nq" "cache st ?key = None" "int (length items) \<le> ?lmt"
    unfolding m1 [OF that(1,2)] queryScore_def by (rule set_rankItems_all [OF that(3)])
  have h: "?nq = ''hello'' \<longrightarrow> effectiveThreshold None ?nq = 3"
    by (simp add: effectiveThreshold_def)
  from d c2 hit m1 m2 m3 m4 h show ?thesis by blast
qed

text \<open>
  The theorem at the query \<open>undefined\<close> of 9 code units, where the threshold is 4: of a
  record at distance 5 and one at distance 4 the second is returned (a threshold 3 would
  return none), and the result is stored under the key \<open>undefined-4-5\<close>. And at the query
  \<open>Hello!\<close>, which normalizes to \<open>hello\<close>.
\<close>

theorem default_threshold_witness:
  "3 \<le> length (normalize ''undefined'') \<and>
   effectiveThreshold None (normalize ''undefined'') = 4 \<and>
   queryScore ''undefined'' [''title''] recFour = 4 \<and>
   queryScore ''undefined'' [''title''] recFive = 5 \<and>
   fst (fuzzySearch initialState [recFive, recFour] ''undefined'' [''title''] None None) = [recFour] \<and>
   cache (snd (fuzzySearch initialState [recFive, recFour] ''undefined'' [''title''] None None))
     = [''undefined-4-5'' \<mapsto> [recFour]] \<and>
   fuzzySearch initialState [recFive, recFour] ''undefined'' [''title''] None None =
   fuzzySearch initialState [recFive, recFour] ''undefined'' [''title''] (Some 4) None \<and>
   normalize ''Hello!'' = ''hello'' \<and>
   effectiveThreshold None (normalize ''Hello!'') = 3"
proof -
  let ?items = "[recFive, recFour]"
  let ?out = "fuzzySearch initialState ?items ''undefined'' [''title''] None None"
  have d: "max 3 \<lfloor>0.45 * real (length (normalize ''undefined''))\<rfloor> = 4"
    by (simp add: normalize_undefined)
  have l: "3 \<le> length (normalize ''undefined'')" by (simp add: normalize_undefined)
  have c: "cache (initialState :: string state) k = None" for k by (simp add: initialState_def)
  have ci: "cache (initialState :: string state) = Map.empty" by (simp add: initialState_def)
  note T = default_threshold [of "''undefined''" initialState ?items "[''title'']" None, unfolded d]
  note T1 = T [THEN conjunct1]
  note T2 = T [THEN conjunct2, THEN conjunct1]
  note M = T [THEN conjunct2, THEN conjunct2, THEN conjunct1, THEN mp, OF l,
      THEN conjunct2, THEN mp, OF c]
  from T1 have t: "effectiveThreshold None (normalize ''undefined'') = 4" .
  from M have r: "fst ?out = rankItems (normalize ''undefined'') [''title''] 4
      (case None of None \<Rightarrow> 5 | Some l \<Rightarrow> l) ?items" by (rule conjunct1)
  have res: "fst ?out = [recFour]"
    unfolding r
    by (simp add: normalize_undefined rank_undefined score_recFour score_recFive withinThreshold_def
        numeral_eq_enat)
  from M have "cache (snd ?out) =
      (cache initialState)(cacheKey (normalize ''undefined'') 4 (case None of None \<Rightarrow> 5 | Some l \<Rightarrow> l)
         \<mapsto> fst ?out)" by (rule conjunct2 [THEN conjunct1])
  then have k: "cache (snd ?out) = [''undefined-4-5'' \<mapsto> [recFour]]"
    unfolding res normalize_undefined by (simp add: key_undefined ci)
  from T2 have s: "?out = fuzzySearch initialState ?items ''undefined'' [''title''] (Some 4) None" .
  have h: "normalize ''Hello!'' = ''hello''" by (simp add: normalize_eval)
  have h3: "effectiveThreshold None (normalize ''Hello!'') = 3"
    by (rule default_threshold [of "''Hello!''" initialState "[]" "[]" None,
        THEN conjunct2, THEN conjunct2, THEN conjunct2, THEN mp, OF h])
  have q4: "queryScore ''undefined'' [''title''] recFour = 4"
    by (simp add: queryScore_undefined score_recFour)
  have q5: "queryScore ''undefined'' [''title''] recFive = 5"
    by (simp add: queryScore_undefined score_recFive)
  from l t q4 q5 res k s h h3 show ?thesis by blast
qed

text \<open>
  Claim C7: in the result of a search that does not answer from the cache the records are in
  ascending order of their computed score, and for every score the records of the result
  with that score are, in the same order, the first of the records of the input with that
  score.
\<close>

theorem result_sorted_stable:
  assumes "\<not> cacheHit st query threshold limit"
  shows "sorted (map (queryScore query keys) (fst (fuzzySearch st items query keys threshold limit))) \<and>
     (\<forall>v. prefix (filter (\<lambda>r. queryScore query keys r = v)
                      (fst (fuzzySearch st items query keys threshold limit)))
                  (filter (\<lambda>r. queryScore query keys r = v) items))"
proof (cases "length (normalize query) < 3")
  case True
  then show ?thesis by (simp add: fuzzySearch_miss [OF assms])
next
  case False
  let ?result = "fst (fuzzySearch st items query keys threshold limit)"
  let ?sc = "queryScore query keys"
  obtain n where n: "?result = take n (sort_key ?sc
      (filter (\<lambda>item. withinThreshold (effectiveThreshold threshold (normalize query)) (?sc item)) items))"
    using sliceLimit_take False
    unfolding fuzzySearch_miss [OF assms] rankItems_sort queryScore_def [abs_def]
    by metis
  have "sorted (map ?sc ?result)" by (rule ranked_properties(1) [where sc = "?sc", OF n])
  moreover have "prefix (filter (\<lambda>r. ?sc r = v) ?result) (filter (\<lambda>r. ?sc r = v) items)" for v
    by (rule ranked_properties(2) [where sc = "?sc", OF n])
  ultimately show ?thesis by blast
qed

text \<open>
  The theorem at three records with the scores 1, 0 and 1.
\<close>

theorem result_sorted_stable_witness:
  "\<not> cacheHit initialState ''abc'' None None \<and>
   fst (fuzzySearch initialState [recNear, recExact, recNearB] ''abc'' [''title''] None None)
     = [recExact, recNear, recNearB] \<and>
   map (queryScore ''abc'' [''title'']) [recExact, recNear, recNearB] = [0, 1, 1] \<and>
   sorted (map (queryScore ''abc'' [''title'']) [recExact, recNear, recNearB]) \<and>
   prefix (filter (\<lambda>r. queryScore ''abc'' [''title''] r = 1) [recExact, recNear, recNearB])
          (filter (\<lambda>r. queryScore ''abc'' [''title''] r = 1) [recNear, recExact, recNearB])"
proof -
  have m: "\<not> cacheHit initialState ''abc'' None None" by (rule not_cacheHit_initial)
  note T = result_sorted_stable [OF m, of "[''title'']" "[recNear, recExact, recNearB]", unfolded search_1]
  have s: "map (queryScore ''abc'' [''title'']) [recExact, recNear, recNearB] = [0, 1, 1]"
    by (simp add: queryScore_abc score_recExact score_recNear score_recNearB)
  from T have "sorted (map (queryScore ''abc'' [''title'']) [recExact, recNear, recNearB])" by blast
  moreover from T have "prefix (filter (\<lambda>r. queryScore ''abc'' [''title''] r = 1) [recExact, recNear, recNearB])
          (filter (\<lambda>r. queryScore ''abc'' [''title''] r = 1) [recNear, recExact, recNearB])" by blast
  ultimately show ?thesis using m search_1 s by blast
qed



text \<open>
  Claim C9: normalizing twice is normalizing once. (\<open>normalize\<close> reads and writes no state:
  it is a function of its argument.)
\<close>

theorem normalize_idempotent: "normalize (normalize s) = normalize s"
proof -
  let ?t = "normalize s"
  have "toLowerCase ?t = ?t" by (rule toLowerCase_kept [OF normalize_kept])
  moreover have "filter keptChar ?t = ?t" using normalize_kept [of s] by (simp add: filter_id_conv)
  moreover have "trim ?t = ?t" by (simp add: normalize_def trim_idem)
  ultimately show ?thesis by (simp add: normalize_def [of ?t])
qed

text \<open>
  The theorem at a string with capitals, punctuation and spaces around it.
\<close>

theorem normalize_idempotent_witness:
  "normalize ''  Hello, World! '' = ''hello world'' \<and> normalize ''hello world'' = ''hello world''"
proof -
  have a: "normalize ''  Hello, World! '' = ''hello world''"
    by (simp add: normalize_def trim_def toLowerCase_def lowerChar_def keptChar_def isWhiteSpace_def
      char_of_def bit_Suc_0_iff)
  from normalize_idempotent [of "''  Hello, World! ''"] a show ?thesis by simp
qed

end
